theory Spec2Isabelle
  imports Main "HOL-Library.Word"
begin

section \<open>Common types\<close>

text \<open>
  \<open>frame_id_t\<close> and \<open>page_id_t\<close> are \<open>int32_t\<close> in the source. Frame identifiers are
  used as array indices and compared with \<open>-1\<close>; they are modelled as integers. Page
  identifiers are only compared for equality and incremented, so they are 32-bit words
  (the increment of the atomic counter wraps). \<open>size_t\<close> counters of the replacer are
  64-bit words.
\<close>

type_synonym frame_id_t = int
type_synonym page_id_t = "32 word"
type_synonym size_t = "64 word"

text \<open>
  How a call can fail to return normally: \<open>std::invalid_argument\<close> is thrown,
  \<open>BUSTUB_ASSERT\<close> aborts the process, a container is indexed out of range (undefined
  behaviour in C++), or the call never returns.
\<close>

datatype failure = InvalidArgument | AssertionFailure | OutOfBounds | Diverges

text \<open>Sequencing of calls that may fail: the first failure ends the sequence.\<close>

definition thn :: "failure + 'a \<Rightarrow> ('a \<Rightarrow> failure + 'b) \<Rightarrow> failure + 'b" where
  "thn x f = (case x of Inl e \<Rightarrow> Inl e | Inr a \<Rightarrow> f a)"

section \<open>LRU-K replacer\<close>

subsection \<open>\<open>FrameInfo\<close> (lru_k_replacer.h)\<close>

record FrameInfo =
  fi_k :: nat
  evictable :: bool
  access_timestamps :: "size_t list"

record access_info_t =
  k_distance :: size_t
  earliest_access_timestamp :: size_t

text \<open>
  Modelled from the spec: \<open>BUSTUB_TIMESTAMP_MAX\<close> is a macro of \<open>common/config.h\<close>, which is
  not among the sources. The spec says that a frame with fewer than k accesses has
  k-distance \<open>+\<infinity>\<close>; the constant is taken to be the largest \<open>size_t\<close>.
\<close>

definition BUSTUB_TIMESTAMP_MAX :: size_t where
  "BUSTUB_TIMESTAMP_MAX = - 1"

definition new_FrameInfo :: "nat \<Rightarrow> FrameInfo" where
  "new_FrameInfo kk = \<lparr>fi_k = kk, evictable = False, access_timestamps = []\<rparr>"

definition IsEvictable :: "FrameInfo \<Rightarrow> bool" where
  "IsEvictable fi = evictable fi"

definition FrameInfo_SetEvictable :: "bool \<Rightarrow> FrameInfo \<Rightarrow> FrameInfo" where
  "FrameInfo_SetEvictable b fi = fi\<lparr>evictable := b\<rparr>"

definition FrameInfo_RecordAccess :: "size_t \<Rightarrow> FrameInfo \<Rightarrow> FrameInfo" where
  "FrameInfo_RecordAccess timestamp fi =
     (let ts = access_timestamps fi @ [timestamp]
      in fi\<lparr>access_timestamps := (if length ts > fi_k fi then tl ts else ts)\<rparr>)"

text \<open>
  \<open>GetAccessInfo\<close> reads \<open>access_timestamps_[0]\<close> and \<open>access_timestamps_[k_ - 1]\<close> without
  a bounds check; an index outside the vector is the failure \<open>OutOfBounds\<close>.
\<close>

definition GetAccessInfo :: "FrameInfo \<Rightarrow> failure + access_info_t" where
  "GetAccessInfo fi =
     (let ts = access_timestamps fi in
      if ts = [] then Inl OutOfBounds
      else if length ts < fi_k fi
        then Inr \<lparr>k_distance = BUSTUB_TIMESTAMP_MAX, earliest_access_timestamp = ts ! 0\<rparr>
      else if fi_k fi = 0 then Inl OutOfBounds
      else Inr \<lparr>k_distance = ts ! (fi_k fi - 1) - ts ! 0, earliest_access_timestamp = ts ! 0\<rparr>)"

subsection \<open>\<open>LRUKReplacer\<close> (lru_k_replacer.cpp)\<close>

text \<open>
  \<open>map_\<close> is a \<open>std::unordered_map\<close>; the loops of \<open>Evict\<close> iterate over it, so it is an
  association list with distinct keys, iterated in list order. A new key is appended.
\<close>

record LRUKReplacer =
  current_timestamp :: size_t
  curr_size :: size_t
  replacer_size :: nat
  lru_k :: nat
  frame_map :: "(frame_id_t \<times> FrameInfo) list"

definition new_LRUKReplacer :: "nat \<Rightarrow> nat \<Rightarrow> LRUKReplacer" where
  "new_LRUKReplacer num_frames kk =
     \<lparr>current_timestamp = 0, curr_size = 0, replacer_size = num_frames, lru_k = kk, frame_map = []\<rparr>"

definition CheckFrameId :: "LRUKReplacer \<Rightarrow> frame_id_t \<Rightarrow> bool" where
  "CheckFrameId r frame_id \<longleftrightarrow> frame_id \<ge> 0 \<and> nat frame_id \<le> replacer_size r"

definition map_count :: "(frame_id_t \<times> FrameInfo) list \<Rightarrow> frame_id_t \<Rightarrow> nat" where
  "map_count m frame_id = (if map_of m frame_id = None then 0 else 1)"

definition map_erase :: "frame_id_t \<Rightarrow> (frame_id_t \<times> FrameInfo) list \<Rightarrow> (frame_id_t \<times> FrameInfo) list" where
  "map_erase frame_id m = filter (\<lambda>p. fst p \<noteq> frame_id) m"

definition map_modify :: "frame_id_t \<Rightarrow> (FrameInfo \<Rightarrow> FrameInfo) \<Rightarrow> (frame_id_t \<times> FrameInfo) list
    \<Rightarrow> (frame_id_t \<times> FrameInfo) list" where
  "map_modify frame_id g m = map (\<lambda>p. if fst p = frame_id then (fst p, g (snd p)) else p) m"

text \<open>The first loop of \<open>Evict\<close>: the key of the first evictable entry, or \<open>-1\<close>.\<close>

fun first_evictable :: "(frame_id_t \<times> FrameInfo) list \<Rightarrow> frame_id_t" where
  "first_evictable [] = - 1"
| "first_evictable (p # m) = (if IsEvictable (snd p) then fst p else first_evictable m)"

text \<open>The second loop of \<open>Evict\<close>, carrying \<open>target_frame_id\<close> and its access info.\<close>

fun evict_scan :: "(frame_id_t \<times> FrameInfo) list \<Rightarrow> frame_id_t \<times> access_info_t
    \<Rightarrow> failure + (frame_id_t \<times> access_info_t)" where
  "evict_scan [] tgt = Inr tgt"
| "evict_scan (p # m) tgt =
     (if \<not> IsEvictable (snd p) then evict_scan m tgt
      else case GetAccessInfo (snd p) of
        Inl e \<Rightarrow> Inl e
      | Inr cur \<Rightarrow>
          if k_distance cur < k_distance (snd tgt) \<or>
             (k_distance cur = k_distance (snd tgt) \<and>
              earliest_access_timestamp cur \<ge> earliest_access_timestamp (snd tgt))
          then evict_scan m tgt
          else evict_scan m (fst p, cur))"

definition Evict :: "LRUKReplacer \<Rightarrow> failure + (frame_id_t option \<times> LRUKReplacer)" where
  "Evict r =
     (let target_frame_id = first_evictable (frame_map r) in
      if target_frame_id = - 1 then Inr (None, r)
      else case map_of (frame_map r) target_frame_id of
        None \<Rightarrow> Inl OutOfBounds
      | Some fi \<Rightarrow>
          (case GetAccessInfo fi of
             Inl e \<Rightarrow> Inl e
           | Inr info \<Rightarrow>
               (case evict_scan (frame_map r) (target_frame_id, info) of
                  Inl e \<Rightarrow> Inl e
                | Inr tgt \<Rightarrow>
                    Inr (Some (fst tgt),
                         r\<lparr>frame_map := map_erase (fst tgt) (frame_map r),
                           curr_size := curr_size r - 1\<rparr>))))"

definition RecordAccess :: "frame_id_t \<Rightarrow> LRUKReplacer \<Rightarrow> failure + LRUKReplacer" where
  "RecordAccess frame_id r =
     (if \<not> CheckFrameId r frame_id then Inl AssertionFailure
      else
        let m = (if map_count (frame_map r) frame_id = 0
                 then frame_map r @ [(frame_id, new_FrameInfo (lru_k r))]
                 else frame_map r)
        in Inr (r\<lparr>frame_map := map_modify frame_id (FrameInfo_RecordAccess (current_timestamp r)) m,
                  current_timestamp := current_timestamp r + 1\<rparr>))"

definition SetEvictable :: "frame_id_t \<Rightarrow> bool \<Rightarrow> LRUKReplacer \<Rightarrow> failure + LRUKReplacer" where
  "SetEvictable frame_id set_evictable r =
     (if \<not> CheckFrameId r frame_id then Inl AssertionFailure
      else case map_of (frame_map r) frame_id of
        None \<Rightarrow> Inl InvalidArgument
      | Some fi \<Rightarrow>
          if set_evictable then
            (if \<not> IsEvictable fi
             then Inr (r\<lparr>curr_size := curr_size r + 1,
                        frame_map := map_modify frame_id (FrameInfo_SetEvictable True) (frame_map r)\<rparr>)
             else Inr r)
          else
            (if IsEvictable fi
             then Inr (r\<lparr>curr_size := curr_size r - 1,
                        frame_map := map_modify frame_id (FrameInfo_SetEvictable False) (frame_map r)\<rparr>)
             else Inr r))"

definition Remove :: "frame_id_t \<Rightarrow> LRUKReplacer \<Rightarrow> failure + LRUKReplacer" where
  "Remove frame_id r =
     (if \<not> CheckFrameId r frame_id then Inl AssertionFailure
      else case map_of (frame_map r) frame_id of
        None \<Rightarrow> Inr r
      | Some fi \<Rightarrow>
          if \<not> IsEvictable fi then Inl InvalidArgument
          else Inr (r\<lparr>frame_map := map_erase frame_id (frame_map r),
                     curr_size := curr_size r - 1\<rparr>))"

definition Size :: "LRUKReplacer \<Rightarrow> size_t" where
  "Size r = curr_size r"

subsection \<open>The eviction order of the LRU-K policy, as documented\<close>

text \<open>
  The header documents the backward k-distance as the difference between the current
  timestamp and the timestamp of the kth previous access. For a frame with at least k
  recorded accesses that timestamp is the kth entry from the end of its history; a frame
  with fewer has none (distance \<open>+\<infinity>\<close>).
\<close>

definition kth_previous_access :: "FrameInfo \<Rightarrow> size_t option" where
  "kth_previous_access fi =
     (let ts = access_timestamps fi in
      if length ts < fi_k fi \<or> fi_k fi = 0 then None else Some (ts ! (length ts - fi_k fi)))"

text \<open>
  A replacer with k = 2 after accesses to frames 1, 1, 2, 3, 2 (timestamps 0 to 4), with
  frames 1 and 2 made evictable.
\<close>

definition replacer_11232 :: "failure + LRUKReplacer" where
  "replacer_11232 =
     thn (thn (thn (thn (thn (thn (thn (Inr (new_LRUKReplacer 4 2))
       (RecordAccess 1)) (RecordAccess 1)) (RecordAccess 2)) (RecordAccess 3)) (RecordAccess 2))
       (SetEvictable 1 True)) (SetEvictable 2 True)"

section \<open>Extendible hash table (extendible_hash_table.cpp)\<close>

subsection \<open>\<open>Bucket\<close>\<close>

text \<open>
  \<open>depth_\<close> and \<open>global_depth_\<close> are \<open>int\<close> in the source; they start at 0 and are only
  incremented, and they are used as shift amounts, so they are natural numbers here. The
  shifts \<open>1 << depth\<close> are computed in \<open>int\<close>; the model computes them exactly, which is
  what the source does for depths up to 30.
\<close>

record ('k, 'v) Bucket =
  size_b :: nat
  depth :: nat
  list_b :: "('k \<times> 'v) list"

definition new_Bucket :: "nat \<Rightarrow> nat \<Rightarrow> ('k, 'v) Bucket" where
  "new_Bucket array_size d = \<lparr>size_b = array_size, depth = d, list_b = []\<rparr>"

text \<open>
  Modelled from the spec: \<open>Bucket::IsFull\<close>, \<open>GetDepth\<close> and \<open>GetItems\<close> are declared in
  \<open>extendible_hash_table.h\<close>, which is not among the sources. The spec gives a bucket a
  capacity \<open>c\<close> with \<open>|items| \<le> c\<close> and lets \<open>insert\<close> append while the bucket has room: a
  bucket is full when its list has \<open>size_\<close> entries.
\<close>

definition IsFull :: "('k, 'v) Bucket \<Rightarrow> bool" where
  "IsFull b \<longleftrightarrow> length (list_b b) = size_b b"

definition GetDepth :: "('k, 'v) Bucket \<Rightarrow> nat" where
  "GetDepth b = depth b"

definition GetItems :: "('k, 'v) Bucket \<Rightarrow> ('k \<times> 'v) list" where
  "GetItems b = list_b b"

text \<open>The loop shared by \<open>Find\<close>, \<open>Remove\<close> and \<open>Insert\<close>: the first pair with the key.\<close>

fun first_with_key :: "'k \<Rightarrow> ('k \<times> 'v) list \<Rightarrow> ('k \<times> 'v) option" where
  "first_with_key key [] = None"
| "first_with_key key (p # ps) = (if fst p = key then Some p else first_with_key key ps)"

definition Bucket_Find :: "'k \<Rightarrow> ('k, 'v) Bucket \<Rightarrow> 'v option" where
  "Bucket_Find key b = map_option snd (first_with_key key (list_b b))"

text \<open>\<open>list_.remove(p)\<close> erases every element equal to the pair \<open>p\<close>.\<close>

definition Bucket_Remove :: "'k \<Rightarrow> ('k, 'v) Bucket \<Rightarrow> bool \<times> ('k, 'v) Bucket" where
  "Bucket_Remove key b =
     (case first_with_key key (list_b b) of
        Some p \<Rightarrow> (True, b\<lparr>list_b := removeAll p (list_b b)\<rparr>)
      | None \<Rightarrow> (False, b))"

fun assign_first :: "'k \<Rightarrow> 'v \<Rightarrow> ('k \<times> 'v) list \<Rightarrow> ('k \<times> 'v) list" where
  "assign_first key value [] = []"
| "assign_first key value (p # ps) =
     (if fst p = key then (fst p, value) # ps else p # assign_first key value ps)"

definition Bucket_Insert :: "'k \<Rightarrow> 'v \<Rightarrow> ('k, 'v) Bucket \<Rightarrow> bool \<times> ('k, 'v) Bucket" where
  "Bucket_Insert key value b =
     (if first_with_key key (list_b b) \<noteq> None
        then (True, b\<lparr>list_b := assign_first key value (list_b b)\<rparr>)
      else if IsFull b then (False, b)
      else (True, b\<lparr>list_b := list_b b @ [(key, value)]\<rparr>))"

subsection \<open>\<open>ExtendibleHashTable\<close>\<close>

text \<open>
  The directory holds shared pointers, and several slots may point to one bucket: a
  bucket changed through one slot is changed for all of them. The buckets therefore live
  in a store, a reference is an index into it, and \<open>std::make_shared\<close> appends to it. A
  bucket that no slot references any more stays in the store (the source frees it).

  \<open>std::hash<K>\<close> is the parameter \<open>h\<close> of every operation.
\<close>

record ('k, 'v) ExtendibleHashTable =
  global_depth :: nat
  bucket_size :: nat
  num_buckets :: int
  dir :: "nat list"
  store :: "('k, 'v) Bucket list"

definition new_ExtendibleHashTable :: "nat \<Rightarrow> ('k, 'v) ExtendibleHashTable" where
  "new_ExtendibleHashTable bsize =
     \<lparr>global_depth = 0, bucket_size = bsize, num_buckets = 1, dir = [0],
      store = [new_Bucket bsize 0]\<rparr>"

definition make_shared :: "('k, 'v) Bucket \<Rightarrow> ('k, 'v) ExtendibleHashTable
    \<Rightarrow> nat \<times> ('k, 'v) ExtendibleHashTable" where
  "make_shared b t = (length (store t), t\<lparr>store := store t @ [b]\<rparr>)"

text \<open>
  The source computes the mask in \<open>int\<close>, as \<open>(1 << global_depth_) - 1\<close>, and the step of the
  loop of \<open>InsertInternal\<close> as \<open>1 << original_local_depth\<close>. Here they are computed over the
  natural numbers, which is the same while the global depth is at most 30; from depth 31
  on the shift of the source overflows.
\<close>

definition IndexOf :: "('k \<Rightarrow> nat) \<Rightarrow> ('k, 'v) ExtendibleHashTable \<Rightarrow> 'k \<Rightarrow> nat" where
  "IndexOf h t key = (let mask = push_bit (global_depth t) 1 - 1 in and (h key) mask)"



definition GetNumBuckets :: "('k, 'v) ExtendibleHashTable \<Rightarrow> int" where
  "GetNumBuckets t = num_buckets t"

definition Find :: "('k \<Rightarrow> nat) \<Rightarrow> 'k \<Rightarrow> ('k, 'v) ExtendibleHashTable \<Rightarrow> 'v option" where
  "Find h key t = Bucket_Find key (store t ! (dir t ! IndexOf h t key))"

definition Remove_eht :: "('k \<Rightarrow> nat) \<Rightarrow> 'k \<Rightarrow> ('k, 'v) ExtendibleHashTable
    \<Rightarrow> bool \<times> ('k, 'v) ExtendibleHashTable" where
  "Remove_eht h key t =
     (let r = dir t ! IndexOf h t key;
          res = Bucket_Remove key (store t ! r)
      in (fst res, t\<lparr>store := (store t)[r := snd res]\<rparr>))"

text \<open>
  The loop of the \<open>else\<close> branch of \<open>InsertInternal\<close>: from \<open>i\<close> in steps of
  \<open>1 << original_local_depth\<close> while \<open>i < dir_.size()\<close>.
\<close>

function reassign :: "nat \<Rightarrow> nat \<Rightarrow> nat \<Rightarrow> nat \<Rightarrow> nat list \<Rightarrow> nat list" where
  "reassign ld bucket0 bucket1 i d =
     (if i < length d
      then reassign ld bucket0 bucket1 (i + push_bit ld 1)
             (d[i := (if and i (push_bit ld 1) = 0 then bucket0 else bucket1)])
      else d)"
  by pat_completeness auto
termination
  by (relation "measure (\<lambda>(ld, b0, b1, i, d). length d - i)")
     (auto simp: push_bit_eq_mult intro!: diff_less_mono2)

declare reassign.simps [simp del]

text \<open>
  Everything \<open>InsertInternal\<close> does between the failed \<open>Bucket::Insert\<close> and the call of
  \<open>RedistributeBucket\<close>: two fresh buckets, the directory doubled if needed, the slots of
  the original bucket redirected.
\<close>

definition split_bucket :: "nat \<Rightarrow> ('k, 'v) ExtendibleHashTable \<Rightarrow> ('k, 'v) ExtendibleHashTable" where
  "split_bucket original_dir_index t =
     (let original_local_depth = GetDepth (store t ! (dir t ! original_dir_index));
          (bucket0, t0) = make_shared (new_Bucket (bucket_size t) (original_local_depth + 1)) t;
          (bucket1, t1) = make_shared (new_Bucket (bucket_size t) (original_local_depth + 1)) t0
      in if original_local_depth + 1 > global_depth t1
         then
           let original_dir_size = length (dir t1) in
           t1\<lparr>global_depth := global_depth t1 + 1,
              dir := (dir t1 @ dir t1)[original_dir_index := bucket0,
                                      original_dir_index + original_dir_size := bucket1]\<rparr>
         else
           let original_local_depth_bit_mask = push_bit original_local_depth 1 in
           t1\<lparr>dir := reassign original_local_depth bucket0 bucket1
                       (and original_dir_index (original_local_depth_bit_mask - 1)) (dir t1)\<rparr>)"

text \<open>
  A loop that calls a function which may not return, on every element of a list in
  order: the body of \<open>RedistributeBucket\<close>.
\<close>

fun for_each :: "('a \<Rightarrow> 's \<Rightarrow> 's option) \<Rightarrow> 'a list \<Rightarrow> 's \<Rightarrow> 's option" where
  "for_each f [] s = Some s"
| "for_each f (x # xs) s = Option.bind (f x s) (for_each f xs)"

lemma for_each_mono [partial_function_mono]:
  assumes "\<And>x s. mono_option (\<lambda>f. B f x s)"
  shows "mono_option (\<lambda>f. for_each (B f) xs s)"
proof (induction xs arbitrary: s)
  case Nil
  show ?case by (simp add: option.const_mono)
next
  case (Cons x xs)
  show ?case unfolding for_each.simps
    by (rule bind_mono) (use assms Cons.IH in auto)
qed

text \<open>
  \<open>InsertInternal\<close> calls itself, directly and through \<open>RedistributeBucket\<close>, and nothing in
  the source bounds the recursion: the result is \<open>None\<close> when the call does not return. This
  is the function in a memory without bound; what the allocator adds is in the next
  subsection.
\<close>

partial_function (option) InsertInternal :: "('k \<Rightarrow> nat) \<Rightarrow> 'k \<Rightarrow> 'v \<Rightarrow> ('k, 'v) ExtendibleHashTable
    \<Rightarrow> ('k, 'v) ExtendibleHashTable option" where
  "InsertInternal h key value t =
     (let original_dir_index = IndexOf h t key;
          original_bucket = dir t ! original_dir_index;
          res = Bucket_Insert key value (store t ! original_bucket)
      in if fst res then Some (t\<lparr>store := (store t)[original_bucket := snd res]\<rparr>)
         else
           Option.bind
             (for_each (\<lambda>p. InsertInternal h (fst p) (snd p))
                (GetItems (store t ! original_bucket)) (split_bucket original_dir_index t))
             (InsertInternal h key value))"

declare InsertInternal.simps [code]

definition RedistributeBucket :: "('k \<Rightarrow> nat) \<Rightarrow> ('k, 'v) Bucket \<Rightarrow> ('k, 'v) ExtendibleHashTable
    \<Rightarrow> ('k, 'v) ExtendibleHashTable option" where
  "RedistributeBucket h bucket t = for_each (\<lambda>p. InsertInternal h (fst p) (snd p)) (GetItems bucket) t"

definition Insert :: "('k \<Rightarrow> nat) \<Rightarrow> 'k \<Rightarrow> 'v \<Rightarrow> ('k, 'v) ExtendibleHashTable
    \<Rightarrow> ('k, 'v) ExtendibleHashTable option" where
  "Insert h key value t = InsertInternal h key value t"

subsection \<open>\<open>InsertInternal\<close> when the directory cannot grow\<close>

text \<open>
  The loop of \<open>InsertInternal\<close> that doubles the directory calls \<open>dir_.push_back\<close>, and
  \<open>push_back\<close> throws \<open>std::bad_alloc\<close> when the vector cannot grow; nothing in the table
  catches it. A call of \<open>insert\<close> therefore ends in one of two ways: it returns, or
  \<open>std::bad_alloc\<close> leaves it. After the exception the table is not used any more
  (\<open>global_depth_\<close> has been incremented, the directory has not been doubled).
\<close>

datatype ('k, 'v) insert_result = Inserted "('k, 'v) ExtendibleHashTable" | BadAlloc

text \<open>Sequencing: an exception ends the caller too.\<close>

definition and_then :: "('k, 'v) insert_result option
    \<Rightarrow> (('k, 'v) ExtendibleHashTable \<Rightarrow> ('k, 'v) insert_result option)
    \<Rightarrow> ('k, 'v) insert_result option" where
  "and_then m f = Option.bind m (\<lambda>r. case r of Inserted s \<Rightarrow> f s | BadAlloc \<Rightarrow> Some BadAlloc)"

lemma and_then_mono [partial_function_mono]:
  assumes "mono_option B" and "\<And>y. mono_option (\<lambda>f. C y f)"
  shows "mono_option (\<lambda>f. and_then (B f) (\<lambda>y. C y f))"
  unfolding and_then_def
proof (rule bind_mono[OF assms(1)])
  fix r
  show "mono_option (\<lambda>f. case r of Inserted s \<Rightarrow> C s f | BadAlloc \<Rightarrow> Some BadAlloc)"
    by (cases r) (simp_all add: assms(2) option.const_mono)
qed

text \<open>The loop of \<open>RedistributeBucket\<close>, left by an exception of its body.\<close>

fun for_each_alloc :: "('a \<Rightarrow> ('k, 'v) ExtendibleHashTable \<Rightarrow> ('k, 'v) insert_result option)
    \<Rightarrow> 'a list \<Rightarrow> ('k, 'v) ExtendibleHashTable \<Rightarrow> ('k, 'v) insert_result option" where
  "for_each_alloc f [] s = Some (Inserted s)"
| "for_each_alloc f (x # xs) s = and_then (f x s) (for_each_alloc f xs)"

lemma for_each_alloc_mono [partial_function_mono]:
  assumes "\<And>x s. mono_option (\<lambda>f. B f x s)"
  shows "mono_option (\<lambda>f. for_each_alloc (B f) xs s)"
proof (induction xs arbitrary: s)
  case Nil
  show ?case by (simp add: option.const_mono)
next
  case (Cons x xs)
  show ?case unfolding for_each_alloc.simps
    by (rule and_then_mono) (use assms Cons.IH in auto)
qed

text \<open>
  \<open>InsertInternal\<close> in a memory that holds a directory of at most \<open>max_slots\<close> slots: the
  doubling throws when twice the present number of slots is more than that. The other
  allocations of a split, two buckets and a list node per pair, are small next to the
  directory and are taken to succeed. With \<open>max_slots\<close> at most \<open>2 ^ 30\<close> the global depth
  never exceeds 30, so that the shifts are those of the source.
\<close>

partial_function (option) InsertInternal_alloc :: "nat \<Rightarrow> ('k \<Rightarrow> nat) \<Rightarrow> 'k \<Rightarrow> 'v
    \<Rightarrow> ('k, 'v) ExtendibleHashTable \<Rightarrow> ('k, 'v) insert_result option" where
  "InsertInternal_alloc max_slots h key value t =
     (let original_dir_index = IndexOf h t key;
          original_bucket = dir t ! original_dir_index;
          res = Bucket_Insert key value (store t ! original_bucket)
      in if fst res then Some (Inserted (t\<lparr>store := (store t)[original_bucket := snd res]\<rparr>))
         else if GetDepth (store t ! original_bucket) + 1 > global_depth t \<and>
                 max_slots < length (dir t) + length (dir t)
         then Some BadAlloc
         else
           and_then
             (for_each_alloc (\<lambda>p. InsertInternal_alloc max_slots h (fst p) (snd p))
                (GetItems (store t ! original_bucket)) (split_bucket original_dir_index t))
             (InsertInternal_alloc max_slots h key value))"

declare InsertInternal_alloc.simps [code]

definition Insert_alloc :: "nat \<Rightarrow> ('k \<Rightarrow> nat) \<Rightarrow> 'k \<Rightarrow> 'v \<Rightarrow> ('k, 'v) ExtendibleHashTable
    \<Rightarrow> ('k, 'v) insert_result option" where
  "Insert_alloc max_slots h key value t = InsertInternal_alloc max_slots h key value t"

subsection \<open>Well-formed tables\<close>

text \<open>
  The directory has \<open>2 ^ global_depth\<close> slots; every slot holds a reference into the store;
  the bucket behind slot \<open>i\<close> has a depth of at most the global depth, and the slots that
  share it are exactly those that agree with \<open>i\<close> on its low \<open>depth\<close> bits.
\<close>

definition dir_ok :: "('k, 'v) ExtendibleHashTable \<Rightarrow> bool" where
  "dir_ok t \<longleftrightarrow>
     length (dir t) = 2 ^ global_depth t \<and>
     (\<forall>i < length (dir t).
        dir t ! i < length (store t) \<and>
        depth (store t ! (dir t ! i)) \<le> global_depth t \<and>
        (\<forall>j < length (dir t).
           dir t ! j = dir t ! i \<longleftrightarrow>
           take_bit (depth (store t ! (dir t ! i))) j = take_bit (depth (store t ! (dir t ! i))) i))"

text \<open>
  Every bucket the directory refers to has the table's capacity, holds no more pairs than
  that, holds each key once, and holds only keys whose hash agrees with the slot on the
  low \<open>depth\<close> bits.
\<close>

definition buckets_ok :: "('k \<Rightarrow> nat) \<Rightarrow> ('k, 'v) ExtendibleHashTable \<Rightarrow> bool" where
  "buckets_ok h t \<longleftrightarrow>
     (\<forall>i < length (dir t).
        size_b (store t ! (dir t ! i)) = bucket_size t \<and>
        length (list_b (store t ! (dir t ! i))) \<le> bucket_size t \<and>
        distinct (map fst (list_b (store t ! (dir t ! i)))) \<and>
        (\<forall>p \<in> set (list_b (store t ! (dir t ! i))).
           take_bit (depth (store t ! (dir t ! i))) (h (fst p)) =
           take_bit (depth (store t ! (dir t ! i))) i))"

definition eht_inv :: "('k \<Rightarrow> nat) \<Rightarrow> ('k, 'v) ExtendibleHashTable \<Rightarrow> bool" where
  "eht_inv h t \<longleftrightarrow> dir_ok t \<and> buckets_ok h t"

text \<open>The finite map a table stands for: what \<open>Find\<close> returns for each key.\<close>

definition contents :: "('k \<Rightarrow> nat) \<Rightarrow> ('k, 'v) ExtendibleHashTable \<Rightarrow> 'k \<Rightarrow> 'v option" where
  "contents h t = (\<lambda>key. Find h key t)"

text \<open>
  The keys that would share the full hash value of \<open>key\<close> once it is in the table: \<open>key\<close>
  itself and the stored keys with the same hash.
\<close>

definition same_hash_keys :: "('k \<Rightarrow> nat) \<Rightarrow> ('k, 'v) ExtendibleHashTable \<Rightarrow> 'k \<Rightarrow> 'k set" where
  "same_hash_keys h t key = {k. (k = key \<or> contents h t k \<noteq> None) \<and> h k = h key}"

subsection \<open>Sequences of public operations\<close>

text \<open>
  The public operations of the table, and the table after a sequence of them; \<open>None\<close> when
  one of them does not return.
\<close>

datatype ('k, 'v) eht_op = Op_Insert 'k 'v | Op_Remove 'k | Op_Find 'k

fun op_key :: "('k, 'v) eht_op \<Rightarrow> 'k" where
  "op_key (Op_Insert key v) = key"
| "op_key (Op_Remove key) = key"
| "op_key (Op_Find key) = key"

fun eht_apply :: "('k \<Rightarrow> nat) \<Rightarrow> ('k, 'v) eht_op \<Rightarrow> ('k, 'v) ExtendibleHashTable
    \<Rightarrow> ('k, 'v) ExtendibleHashTable option" where
  "eht_apply h (Op_Insert key v) t = Insert h key v t"
| "eht_apply h (Op_Remove key) t = Some (snd (Remove_eht h key t))"
| "eht_apply h (Op_Find key) t = Some t"

fun eht_run :: "('k \<Rightarrow> nat) \<Rightarrow> ('k, 'v) eht_op list \<Rightarrow> ('k, 'v) ExtendibleHashTable
    \<Rightarrow> ('k, 'v) ExtendibleHashTable option" where
  "eht_run h [] t = Some t"
| "eht_run h (x # xs) t = Option.bind (eht_apply h x t) (eht_run h xs)"

text \<open>The keys a sequence of operations inserts.\<close>

fun inserted_keys :: "('k, 'v) eht_op list \<Rightarrow> 'k set" where
  "inserted_keys [] = {}"
| "inserted_keys (Op_Insert key v # xs) = insert key (inserted_keys xs)"
| "inserted_keys (x # xs) = inserted_keys xs"

text \<open>The same sequences in a memory that holds at most \<open>max_slots\<close> directory slots.\<close>

fun eht_apply_alloc :: "nat \<Rightarrow> ('k \<Rightarrow> nat) \<Rightarrow> ('k, 'v) eht_op \<Rightarrow> ('k, 'v) ExtendibleHashTable
    \<Rightarrow> ('k, 'v) insert_result option" where
  "eht_apply_alloc max_slots h (Op_Insert key v) t = Insert_alloc max_slots h key v t"
| "eht_apply_alloc max_slots h (Op_Remove key) t = Some (Inserted (snd (Remove_eht h key t)))"
| "eht_apply_alloc max_slots h (Op_Find key) t = Some (Inserted t)"

fun eht_run_alloc :: "nat \<Rightarrow> ('k \<Rightarrow> nat) \<Rightarrow> ('k, 'v) eht_op list \<Rightarrow> ('k, 'v) ExtendibleHashTable
    \<Rightarrow> ('k, 'v) insert_result option" where
  "eht_run_alloc max_slots h [] t = Some (Inserted t)"
| "eht_run_alloc max_slots h (x # xs) t =
     and_then (eht_apply_alloc max_slots h x t) (eht_run_alloc max_slots h xs)"

text \<open>What a returning \<open>InsertInternal\<close> establishes (used in the proofs below).\<close>

definition insert_post :: "('k \<Rightarrow> nat) \<Rightarrow> 'k \<Rightarrow> 'v \<Rightarrow> ('k, 'v) ExtendibleHashTable
    \<Rightarrow> ('k, 'v) ExtendibleHashTable \<Rightarrow> bool" where
  "insert_post h key v t t' \<longleftrightarrow>
     eht_inv h t' \<and> contents h t' = (contents h t)(key \<mapsto> v) \<and>
     bucket_size t' = bucket_size t \<and> num_buckets t' = num_buckets t \<and>
     global_depth t \<le> global_depth t'"

text \<open>
  The states passed through while \<open>RedistributeBucket\<close> refills the two fresh buckets \<open>N\<close>
  and \<open>Suc N\<close> of the table \<open>ts\<close>: directory and depths as in \<open>ts\<close>, at most \<open>n\<close> pairs in
  either fresh bucket.
\<close>

definition redist_state :: "('k \<Rightarrow> nat) \<Rightarrow> ('k, 'v) ExtendibleHashTable \<Rightarrow> nat \<Rightarrow> nat
    \<Rightarrow> ('k, 'v) ExtendibleHashTable \<Rightarrow> bool" where
  "redist_state h ts N n s \<longleftrightarrow>
     eht_inv h s \<and> dir s = dir ts \<and> global_depth s = global_depth ts \<and>
     bucket_size s = bucket_size ts \<and>
     length (store s) = length (store ts) \<and>
     (\<forall>x < length (store ts). depth (store s ! x) = depth (store ts ! x)) \<and>
     length (list_b (store s ! N)) \<le> n \<and> length (list_b (store s ! Suc N)) \<le> n"

text \<open>
  What is known of a call of \<open>InsertInternal\<close> that returned: its postcondition, and that at
  most \<open>bucket_size\<close> keys share the hash of the inserted key.
\<close>

definition returns_ok :: "('k \<Rightarrow> nat) \<Rightarrow> 'k \<Rightarrow> 'v \<Rightarrow> ('k, 'v) ExtendibleHashTable
    \<Rightarrow> ('k, 'v) ExtendibleHashTable \<Rightarrow> bool" where
  "returns_ok h key v t t' \<longleftrightarrow>
     (eht_inv h t \<longrightarrow> insert_post h key v t t' \<and> card (same_hash_keys h t key) \<le> bucket_size t)"

subsection \<open>Concrete tables\<close>

text \<open>Tables over natural-number keys, hashed by the identity unless said otherwise.\<close>

definition table_8 :: "(nat, nat) ExtendibleHashTable" where
  "table_8 = \<lparr>global_depth = 3, bucket_size = 2, num_buckets = 1,
     dir = [5, 2, 4, 2, 6, 2, 4, 2],
     store =
       [\<lparr>size_b = 2, depth = 0, list_b = [(0, 10), (2, 12)]\<rparr>,
        \<lparr>size_b = 2, depth = 1, list_b = [(0, 10), (4, 14)]\<rparr>,
        \<lparr>size_b = 2, depth = 1, list_b = [(1, 11)]\<rparr>,
        \<lparr>size_b = 2, depth = 2, list_b = [(0, 10), (4, 14)]\<rparr>,
        \<lparr>size_b = 2, depth = 2, list_b = []\<rparr>,
        \<lparr>size_b = 2, depth = 3, list_b = [(0, 10), (8, 18)]\<rparr>,
        \<lparr>size_b = 2, depth = 3, list_b = [(4, 14)]\<rparr>]\<rparr>"





definition table_a :: "(nat, nat) ExtendibleHashTable" where
  "table_a = \<lparr>global_depth = 0, bucket_size = 1, num_buckets = 1, dir = [0],
     store = [\<lparr>size_b = 1, depth = 0, list_b = [(0, 10)]\<rparr>]\<rparr>"

definition table_b :: "(nat, nat) ExtendibleHashTable" where
  "table_b = \<lparr>global_depth = 1, bucket_size = 1, num_buckets = 1, dir = [1, 2],
     store =
       [\<lparr>size_b = 1, depth = 0, list_b = [(0, 10)]\<rparr>,
        \<lparr>size_b = 1, depth = 1, list_b = [(0, 10)]\<rparr>,
        \<lparr>size_b = 1, depth = 1, list_b = [(1, 11)]\<rparr>]\<rparr>"

section \<open>Buffer pool manager (buffer_pool_manager_instance.cpp)\<close>

subsection \<open>Pages and the disk\<close>

text \<open>
  Modelled from the spec: \<open>Page\<close> (\<open>storage/page/page.h\<close>) and the constants
  \<open>BUSTUB_PAGE_SIZE\<close> and \<open>INVALID_PAGE_ID\<close> (\<open>common/config.h\<close>) are not among the sources. The
  spec describes a frame as a fixed-size byte buffer with the metadata \<open>page_id\<close>,
  \<open>pin_count\<close> and \<open>dirty\<close>, resetting a frame as zeroing its bytes, and \<open>INVALID\<close> as the
  page identifier of a frame that holds no page. A fresh frame holds no page, is not pinned
  and is clean.
\<close>

definition BUSTUB_PAGE_SIZE :: nat where
  "BUSTUB_PAGE_SIZE = 4096"

definition INVALID_PAGE_ID :: page_id_t where
  "INVALID_PAGE_ID = - 1"

record Page =
  data :: "8 word list"
  page_id :: page_id_t
  pin_count :: int
  is_dirty :: bool

definition new_Page :: Page where
  "new_Page = \<lparr>data = replicate BUSTUB_PAGE_SIZE 0, page_id = INVALID_PAGE_ID, pin_count = 0,
               is_dirty = False\<rparr>"

definition ResetMemory :: "Page \<Rightarrow> Page" where
  "ResetMemory p = p\<lparr>data := replicate BUSTUB_PAGE_SIZE 0\<rparr>"

text \<open>
  Modelled from the spec: \<open>DiskManager\<close> is an external collaborator with \<open>read_page\<close> and
  \<open>write_page\<close>. The model keeps the log of the writes; a read returns what was last written
  to the page, and zeros for a page never written.
\<close>

record DiskManager =
  writes :: "(page_id_t \<times> 8 word list) list"

definition WritePage :: "page_id_t \<Rightarrow> 8 word list \<Rightarrow> DiskManager \<Rightarrow> DiskManager" where
  "WritePage pid bytes dm = dm\<lparr>writes := writes dm @ [(pid, bytes)]\<rparr>"

definition ReadPage :: "page_id_t \<Rightarrow> DiskManager \<Rightarrow> 8 word list" where
  "ReadPage pid dm =
     (case map_of (rev (writes dm)) pid of Some bytes \<Rightarrow> bytes
      | None \<Rightarrow> replicate BUSTUB_PAGE_SIZE 0)"

subsection \<open>The pool\<close>

text \<open>
  \<open>bucket_size_\<close> is a constant of \<open>buffer_pool_manager_instance.h\<close>, which is not among the
  sources: it is a parameter of the constructor here. \<open>std::hash<page_id_t>\<close> is the
  parameter \<open>h\<close> of the operations. \<open>DeallocatePage\<close>, also of the header, is the spec's
  notification of the disk collaborator; it changes nothing that is modelled.
\<close>

record BufferPoolManagerInstance =
  pool_size :: nat
  pages :: "Page list"
  page_table :: "(page_id_t, frame_id_t) ExtendibleHashTable"
  replacer :: LRUKReplacer
  free_list :: "frame_id_t list"
  next_page_id :: page_id_t
  disk_manager :: DiskManager

definition new_BufferPoolManagerInstance :: "nat \<Rightarrow> DiskManager \<Rightarrow> nat \<Rightarrow> nat
    \<Rightarrow> BufferPoolManagerInstance" where
  "new_BufferPoolManagerInstance pool_sz dm replacer_k bsize =
     \<lparr>pool_size = pool_sz, pages = replicate pool_sz new_Page,
      page_table = new_ExtendibleHashTable bsize,
      replacer = new_LRUKReplacer pool_sz replacer_k,
      free_list = map int [0 ..< pool_sz], next_page_id = 0, disk_manager = dm\<rparr>"

text \<open>
  How a call of the pool ends: it returns a value, or \<open>std::invalid_argument\<close> escapes from
  the replacer and leaves the pool in the state reached so far, or the process aborts (a
  failed assertion, an access outside \<open>pages_\<close>, a call that does not return).
\<close>

datatype 'a outcome =
  Returns 'a BufferPoolManagerInstance
| Throws BufferPoolManagerInstance
| Aborts failure

definition call_replacer :: "failure + LRUKReplacer \<Rightarrow> BufferPoolManagerInstance
    \<Rightarrow> (BufferPoolManagerInstance \<Rightarrow> 'a outcome) \<Rightarrow> 'a outcome" where
  "call_replacer res s cont =
     (case res of
        Inl e \<Rightarrow> if e = InvalidArgument then Throws s else Aborts e
      | Inr r \<Rightarrow> cont (s\<lparr>replacer := r\<rparr>))"

definition valid_frame :: "BufferPoolManagerInstance \<Rightarrow> frame_id_t \<Rightarrow> bool" where
  "valid_frame s frame_id \<longleftrightarrow> 0 \<le> frame_id \<and> nat frame_id < length (pages s)"

definition page_at :: "BufferPoolManagerInstance \<Rightarrow> frame_id_t \<Rightarrow> Page" where
  "page_at s frame_id = pages s ! nat frame_id"

definition set_page :: "frame_id_t \<Rightarrow> Page \<Rightarrow> BufferPoolManagerInstance \<Rightarrow> BufferPoolManagerInstance" where
  "set_page frame_id p s = s\<lparr>pages := (pages s)[nat frame_id := p]\<rparr>"

text \<open>
  The block that opens \<open>NewPgImp\<close> and the miss path of \<open>FetchPgImp\<close>: the front of the free
  list, or else the victim of the replacer, or else no frame.
\<close>

definition obtain_frame :: "BufferPoolManagerInstance
    \<Rightarrow> failure + (frame_id_t option \<times> BufferPoolManagerInstance)" where
  "obtain_frame s =
     (case free_list s of
        target_frame_id # rest \<Rightarrow> Inr (Some target_frame_id, s\<lparr>free_list := rest\<rparr>)
      | [] \<Rightarrow>
          (case Evict (replacer s) of
             Inl e \<Rightarrow> Inl e
           | Inr res \<Rightarrow> Inr (fst res, s\<lparr>replacer := snd res\<rparr>)))"

text \<open>The write-back of a dirty frame and the removal of its page from the page table.\<close>

definition write_back :: "frame_id_t \<Rightarrow> BufferPoolManagerInstance \<Rightarrow> BufferPoolManagerInstance" where
  "write_back frame_id s =
     (if is_dirty (page_at s frame_id)
      then s\<lparr>disk_manager := WritePage (page_id (page_at s frame_id)) (data (page_at s frame_id))
                               (disk_manager s)\<rparr>
      else s)"

definition unmap_page :: "(page_id_t \<Rightarrow> nat) \<Rightarrow> frame_id_t \<Rightarrow> BufferPoolManagerInstance
    \<Rightarrow> BufferPoolManagerInstance" where
  "unmap_page h frame_id s =
     s\<lparr>page_table := snd (Remove_eht h (page_id (page_at s frame_id)) (page_table s))\<rparr>"

definition NewPgImp :: "(page_id_t \<Rightarrow> nat) \<Rightarrow> BufferPoolManagerInstance
    \<Rightarrow> (page_id_t \<times> frame_id_t) option outcome" where
  "NewPgImp h s =
     (case obtain_frame s of
        Inl e \<Rightarrow> Aborts e
      | Inr (None, s0) \<Rightarrow> Returns None s0
      | Inr (Some target_frame_id, s0) \<Rightarrow>
          if \<not> valid_frame s0 target_frame_id then Aborts OutOfBounds
          else
            let s1 = write_back target_frame_id s0;
                s2 = unmap_page h target_frame_id s1;
                s3 = set_page target_frame_id
                       ((ResetMemory (page_at s2 target_frame_id))
                          \<lparr>page_id := next_page_id s2, pin_count := 1\<rparr>)
                       (s2\<lparr>next_page_id := next_page_id s2 + 1\<rparr>)
            in call_replacer (RecordAccess target_frame_id (replacer s3)) s3 (\<lambda>s4.
               call_replacer (SetEvictable target_frame_id False (replacer s4)) s4 (\<lambda>s5.
               case Insert h (page_id (page_at s5 target_frame_id)) target_frame_id (page_table s5) of
                 None \<Rightarrow> Aborts Diverges
               | Some pt \<Rightarrow>
                   Returns (Some (page_id (page_at s5 target_frame_id), target_frame_id))
                     (s5\<lparr>page_table := pt\<rparr>))))"

definition FetchPgImp :: "(page_id_t \<Rightarrow> nat) \<Rightarrow> page_id_t \<Rightarrow> BufferPoolManagerInstance
    \<Rightarrow> frame_id_t option outcome" where
  "FetchPgImp h pid s =
     (case Find h pid (page_table s) of
        Some target_frame_id \<Rightarrow>
          call_replacer (RecordAccess target_frame_id (replacer s)) s (\<lambda>s1.
          Returns (Some target_frame_id) s1)
      | None \<Rightarrow>
          (case obtain_frame s of
             Inl e \<Rightarrow> Aborts e
           | Inr (None, s0) \<Rightarrow> Returns None s0
           | Inr (Some target_frame_id, s0) \<Rightarrow>
               if \<not> valid_frame s0 target_frame_id then Aborts OutOfBounds
               else
                 let s1 = write_back target_frame_id s0;
                     s2 = unmap_page h target_frame_id s1;
                     s3 = set_page target_frame_id
                            ((ResetMemory (page_at s2 target_frame_id))
                               \<lparr>page_id := pid, pin_count := 1\<rparr>) s2
                 in case Insert h (page_id (page_at s3 target_frame_id)) target_frame_id (page_table s3) of
                      None \<Rightarrow> Aborts Diverges
                    | Some pt \<Rightarrow>
                        let s4 = s3\<lparr>page_table := pt\<rparr>;
                            s5 = set_page target_frame_id
                                   ((page_at s4 target_frame_id)
                                      \<lparr>data := ReadPage (page_id (page_at s4 target_frame_id))
                                                 (disk_manager s4)\<rparr>) s4
                        in call_replacer (RecordAccess target_frame_id (replacer s5)) s5 (\<lambda>s6.
                           call_replacer (SetEvictable target_frame_id False (replacer s6)) s6 (\<lambda>s7.
                           Returns (Some target_frame_id) s7))))"

definition UnpinPgImp :: "(page_id_t \<Rightarrow> nat) \<Rightarrow> page_id_t \<Rightarrow> bool \<Rightarrow> BufferPoolManagerInstance
    \<Rightarrow> bool outcome" where
  "UnpinPgImp h pid dirty s =
     (case Find h pid (page_table s) of
        None \<Rightarrow> Returns False s
      | Some target_frame_id \<Rightarrow>
          if \<not> valid_frame s target_frame_id then Aborts OutOfBounds
          else if pin_count (page_at s target_frame_id) = 0 then Returns False s
          else
            let s1 = set_page target_frame_id
                       ((page_at s target_frame_id)
                          \<lparr>pin_count := pin_count (page_at s target_frame_id) - 1\<rparr>) s;
                finish = (\<lambda>s2. Returns True
                            (set_page target_frame_id ((page_at s2 target_frame_id)\<lparr>is_dirty := dirty\<rparr>) s2))
            in if pin_count (page_at s1 target_frame_id) = 0
               then call_replacer (SetEvictable target_frame_id True (replacer s1)) s1 finish
               else finish s1)"

definition FlushPgImp :: "(page_id_t \<Rightarrow> nat) \<Rightarrow> page_id_t \<Rightarrow> BufferPoolManagerInstance
    \<Rightarrow> bool outcome" where
  "FlushPgImp h pid s =
     (case Find h pid (page_table s) of
        None \<Rightarrow> Returns False s
      | Some target_frame_id \<Rightarrow>
          if \<not> valid_frame s target_frame_id then Aborts OutOfBounds
          else
            let s1 = s\<lparr>disk_manager := WritePage pid (data (page_at s target_frame_id)) (disk_manager s)\<rparr>;
                s2 = set_page target_frame_id ((page_at s1 target_frame_id)\<lparr>is_dirty := False\<rparr>) s1
            in call_replacer (RecordAccess target_frame_id (replacer s2)) s2 (\<lambda>s3.
               Returns True s3))"

text \<open>The loop of \<open>FlushAllPgsImp\<close> over the frame indices; the results of the calls are dropped.\<close>

fun flush_loop :: "(page_id_t \<Rightarrow> nat) \<Rightarrow> nat list \<Rightarrow> BufferPoolManagerInstance \<Rightarrow> unit outcome" where
  "flush_loop h [] s = Returns () s"
| "flush_loop h (i # rest) s =
     (case FlushPgImp h (page_id (pages s ! i)) s of
        Returns res s' \<Rightarrow> flush_loop h rest s'
      | Throws s' \<Rightarrow> Throws s'
      | Aborts e \<Rightarrow> Aborts e)"

definition FlushAllPgsImp :: "(page_id_t \<Rightarrow> nat) \<Rightarrow> BufferPoolManagerInstance \<Rightarrow> unit outcome" where
  "FlushAllPgsImp h s = flush_loop h [0 ..< pool_size s] s"

definition DeletePgImp :: "(page_id_t \<Rightarrow> nat) \<Rightarrow> page_id_t \<Rightarrow> BufferPoolManagerInstance
    \<Rightarrow> bool outcome" where
  "DeletePgImp h pid s =
     (case Find h pid (page_table s) of
        None \<Rightarrow> Returns True s
      | Some target_frame_id \<Rightarrow>
          if \<not> valid_frame s target_frame_id then Aborts OutOfBounds
          else if pin_count (page_at s target_frame_id) > 0 then Returns False s
          else
            let s1 = s\<lparr>page_table := snd (Remove_eht h pid (page_table s))\<rparr>
            in call_replacer (Remove target_frame_id (replacer s1)) s1 (\<lambda>s2.
               let s3 = set_page target_frame_id
                          ((ResetMemory (page_at s2 target_frame_id))
                             \<lparr>page_id := INVALID_PAGE_ID, pin_count := 0, is_dirty := False\<rparr>) s2
               in Returns True (s3\<lparr>free_list := free_list s3 @ [target_frame_id]\<rparr>)))"

subsection \<open>Sequences of calls\<close>

datatype bpm_op =
  NewPage
| FetchPage page_id_t
| UnpinPage page_id_t bool
| FlushPage page_id_t
| FlushAll
| DeletePage page_id_t

text \<open>
  The pool a caller can go on using after a call: the state returned, or left behind by
  an exception. After an abort there is none.
\<close>

fun state_after :: "'a outcome \<Rightarrow> BufferPoolManagerInstance option" where
  "state_after (Returns res s) = Some s"
| "state_after (Throws s) = Some s"
| "state_after (Aborts e) = None"

fun bpm_apply :: "(page_id_t \<Rightarrow> nat) \<Rightarrow> bpm_op \<Rightarrow> BufferPoolManagerInstance
    \<Rightarrow> BufferPoolManagerInstance option" where
  "bpm_apply h NewPage s = state_after (NewPgImp h s)"
| "bpm_apply h (FetchPage pid) s = state_after (FetchPgImp h pid s)"
| "bpm_apply h (UnpinPage pid dirty) s = state_after (UnpinPgImp h pid dirty s)"
| "bpm_apply h (FlushPage pid) s = state_after (FlushPgImp h pid s)"
| "bpm_apply h FlushAll s = state_after (FlushAllPgsImp h s)"
| "bpm_apply h (DeletePage pid) s = state_after (DeletePgImp h pid s)"

fun bpm_run :: "(page_id_t \<Rightarrow> nat) \<Rightarrow> bpm_op list \<Rightarrow> BufferPoolManagerInstance
    \<Rightarrow> BufferPoolManagerInstance option" where
  "bpm_run h [] s = Some s"
| "bpm_run h (x # xs) s = Option.bind (bpm_apply h x s) (bpm_run h xs)"

subsection \<open>Well-formed pools\<close>

text \<open>The entry the replacer holds for a frame.\<close>

definition tracked :: "LRUKReplacer \<Rightarrow> frame_id_t \<Rightarrow> FrameInfo option" where
  "tracked r = map_of (frame_map r)"

text \<open>
  The page table is a well-formed hash table, and a page id it maps goes to a frame of the
  pool that holds that page.
\<close>

definition table_ok :: "(page_id_t \<Rightarrow> nat) \<Rightarrow> (page_id_t, frame_id_t) ExtendibleHashTable \<Rightarrow> Page list \<Rightarrow> bool" where
  "table_ok h pt pgs \<longleftrightarrow>
     eht_inv h pt \<and>
     (\<forall>pid f. contents h pt pid = Some f \<longrightarrow>
        0 \<le> f \<and> nat f < length pgs \<and> page_id (pgs ! nat f) = pid)"

text \<open>
  The replacer tracks frames of the pool only, each once, and a frame it holds as evictable
  has pin count 0. The frames in \<open>X\<close> are exempt from the last condition: in the middle of a
  call the frame being worked on is.
\<close>

definition replacer_ok :: "LRUKReplacer \<Rightarrow> Page list \<Rightarrow> frame_id_t set \<Rightarrow> bool" where
  "replacer_ok r pgs X \<longleftrightarrow>
     distinct (map fst (frame_map r)) \<and>
     (\<forall>f fi. tracked r f = Some fi \<longrightarrow>
        0 \<le> f \<and> nat f < length pgs \<and>
        (IsEvictable fi \<longrightarrow> f \<in> X \<or> pin_count (pgs ! nat f) = 0))"

text \<open>What holds of the pool between calls.\<close>

definition bpm_inv :: "(page_id_t \<Rightarrow> nat) \<Rightarrow> BufferPoolManagerInstance \<Rightarrow> bool" where
  "bpm_inv h s \<longleftrightarrow>
     length (pages s) = pool_size s \<and> replacer_size (replacer s) = pool_size s \<and>
     table_ok h (page_table s) (pages s) \<and>
     (\<forall>f \<in> set (free_list s). 0 \<le> f \<and> nat f < pool_size s) \<and>
     replacer_ok (replacer s) (pages s) {}"


subsection \<open>Concrete pools\<close>

text \<open>
  States of small pools, with \<open>std::hash<page_id_t>\<close> taken as the value of the id, two
  pairs per bucket and \<open>k = 2\<close>. One frame: page 0 allocated and unpinned clean; the same
  unpinned dirty; then page 1 allocated in its place.
\<close>

definition pool1_unpinned :: BufferPoolManagerInstance where
  "pool1_unpinned =
     \<lparr>pool_size = 1,
      pages = [\<lparr>data = replicate BUSTUB_PAGE_SIZE 0, page_id = 0, pin_count = 0, is_dirty = False\<rparr>],
      page_table = \<lparr>global_depth = 0, bucket_size = 2, num_buckets = 1, dir = [0],
                    store = [\<lparr>size_b = 2, depth = 0, list_b = [(0, 0)]\<rparr>]\<rparr>,
      replacer = \<lparr>current_timestamp = 1, curr_size = 1, replacer_size = 1, lru_k = 2,
                  frame_map = [(0, \<lparr>fi_k = 2, evictable = True, access_timestamps = [0]\<rparr>)]\<rparr>,
      free_list = [], next_page_id = 1, disk_manager = \<lparr>writes = []\<rparr>\<rparr>"

definition pool1_dirty :: BufferPoolManagerInstance where
  "pool1_dirty =
     \<lparr>pool_size = 1,
      pages = [\<lparr>data = replicate BUSTUB_PAGE_SIZE 0, page_id = 0, pin_count = 0, is_dirty = True\<rparr>],
      page_table = \<lparr>global_depth = 0, bucket_size = 2, num_buckets = 1, dir = [0],
                    store = [\<lparr>size_b = 2, depth = 0, list_b = [(0, 0)]\<rparr>]\<rparr>,
      replacer = \<lparr>current_timestamp = 1, curr_size = 1, replacer_size = 1, lru_k = 2,
                  frame_map = [(0, \<lparr>fi_k = 2, evictable = True, access_timestamps = [0]\<rparr>)]\<rparr>,
      free_list = [], next_page_id = 1, disk_manager = \<lparr>writes = []\<rparr>\<rparr>"

definition pool1_reused :: BufferPoolManagerInstance where
  "pool1_reused =
     \<lparr>pool_size = 1,
      pages = [\<lparr>data = replicate BUSTUB_PAGE_SIZE 0, page_id = 1, pin_count = 1, is_dirty = True\<rparr>],
      page_table = \<lparr>global_depth = 0, bucket_size = 2, num_buckets = 1, dir = [0],
                    store = [\<lparr>size_b = 2, depth = 0, list_b = [(1, 0)]\<rparr>]\<rparr>,
      replacer = \<lparr>current_timestamp = 2, curr_size = 0, replacer_size = 1, lru_k = 2,
                  frame_map = [(0, \<lparr>fi_k = 2, evictable = False, access_timestamps = [1]\<rparr>)]\<rparr>,
      free_list = [], next_page_id = 2,
      disk_manager = \<lparr>writes = [(0, replicate BUSTUB_PAGE_SIZE 0)]\<rparr>\<rparr>"




section \<open>Results on the LRU-K replacer\<close>

lemma replacer_11232_eq:
  "replacer_11232 = Inr \<lparr>current_timestamp = 5, curr_size = 2, replacer_size = 4, lru_k = 2,
     frame_map =
       [(1, \<lparr>fi_k = 2, evictable = True, access_timestamps = [0, 1]\<rparr>),
        (2, \<lparr>fi_k = 2, evictable = True, access_timestamps = [2, 4]\<rparr>),
        (3, \<lparr>fi_k = 2, evictable = False, access_timestamps = [3]\<rparr>)]\<rparr>"
  by (simp add: replacer_11232_def thn_def new_LRUKReplacer_def RecordAccess_def SetEvictable_def
      CheckFrameId_def map_count_def map_modify_def FrameInfo_RecordAccess_def new_FrameInfo_def
      IsEvictable_def FrameInfo_SetEvictable_def)

text \<open>
  Claim C1: \<open>Evict\<close> returns none exactly when no frame is evictable, and otherwise the
  evictable frame with the largest backward k-distance, that is the one whose kth most
  recent access is oldest (fewer than k accesses counting as infinite), ties broken by the
  earliest recorded timestamp; it erases the entry and decrements \<open>curr_size\<close>.

  The code does not do this. \<open>GetAccessInfo\<close> computes \<open>k_distance\<close> as the newest minus the
  oldest timestamp of the window, not from the kth previous access. In the state below
  frames 1 and 2 are both evictable with two accesses each; the kth previous access of
  frame 1 is at time 0, that of frame 2 at time 2, so frame 1 has the larger backward
  k-distance. \<open>Evict\<close> returns frame 2, whose window spans 2 ticks against 1 for frame 1.
\<close>

theorem Evict_ranks_by_window_span:
  "\<exists>r fi1 fi2.
     replacer_11232 = Inr r \<and>
     map_of (frame_map r) 1 = Some fi1 \<and> IsEvictable fi1 \<and> kth_previous_access fi1 = Some 0 \<and>
     map_of (frame_map r) 2 = Some fi2 \<and> IsEvictable fi2 \<and> kth_previous_access fi2 = Some 2 \<and>
     GetAccessInfo fi1 = Inr \<lparr>k_distance = 1, earliest_access_timestamp = 0\<rparr> \<and>
     GetAccessInfo fi2 = Inr \<lparr>k_distance = 2, earliest_access_timestamp = 2\<rparr> \<and>
     (\<exists>r'. Evict r = Inr (Some 2, r'))"
  unfolding replacer_11232_eq
  by (simp add: kth_previous_access_def IsEvictable_def GetAccessInfo_def Evict_def map_erase_def)

section \<open>Results on the extendible hash table\<close>

lemma first_with_key_None: "first_with_key key xs = None \<longleftrightarrow> key \<notin> fst ` set xs"
  by (induction xs) auto

lemma first_with_key_Some: "first_with_key key xs = Some p \<Longrightarrow> p \<in> set xs \<and> fst p = key"
  by (induction xs) (auto split: if_splits)

lemma first_with_key_map_of: "map_option snd (first_with_key key xs) = map_of xs key"
  by (induction xs) auto

lemma Bucket_Find_map_of: "Bucket_Find key b = map_of (list_b b) key"
  by (simp add: Bucket_Find_def first_with_key_map_of)

lemma map_fst_assign_first: "map fst (assign_first key v xs) = map fst xs"
  by (induction xs) auto

lemma length_assign_first: "length (assign_first key v xs) = length xs"
  by (induction xs) auto

lemma map_of_assign_first:
  "map_of (assign_first key v xs) x = (if x = key \<and> map_of xs key \<noteq> None then Some v else map_of xs x)"
  by (induction xs) auto

lemma map_of_removeAll:
  "distinct (map fst xs) \<Longrightarrow> (key, v) \<in> set xs \<Longrightarrow> map_of (removeAll (key, v) xs) = (map_of xs)(key := None)"
proof (induction xs)
  case Nil
  then show ?case by simp
next
  case (Cons x xs)
  show ?case
  proof (cases "x = (key, v)")
    case True
    with Cons.prems have "key \<notin> fst ` set xs" by auto
    then have "(key, v) \<notin> set xs" by force
    then have "removeAll (key, v) xs = xs" by simp
    moreover have "map_of xs key = None" using \<open>key \<notin> fst ` set xs\<close> by (simp add: map_of_eq_None_iff)
    ultimately show ?thesis using True by (auto simp: fun_eq_iff)
  next
    case False
    with Cons.prems have "(key, v) \<in> set xs" "distinct (map fst xs)" by auto
    from Cons.IH[OF this(2) this(1)] have IH: "map_of (removeAll (key, v) xs) = (map_of xs)(key := None)" .
    have "key \<in> fst ` set xs" using \<open>(key, v) \<in> set xs\<close> by force
    then have "fst x \<noteq> key" using Cons.prems(1) by auto
    then show ?thesis using False IH by (auto simp: fun_eq_iff)
  qed
qed

lemma IndexOf_take_bit: "IndexOf h t key = take_bit (global_depth t) (h key)"
  by (simp add: IndexOf_def take_bit_eq_mask mask_eq_exp_minus_1)

lemma take_bit_Suc_eq_iff:
  "take_bit (Suc n) (a::nat) = take_bit (Suc n) b \<longleftrightarrow> take_bit n a = take_bit n b \<and> bit a n = bit b n"
proof -
  have a: "take_bit n a < 2 ^ n" and b: "take_bit n b < 2 ^ n" by simp_all
  have "2 ^ n + take_bit n a \<noteq> take_bit n b" "take_bit n a \<noteq> 2 ^ n + take_bit n b"
    using a b by linarith+
  then show ?thesis
    by (cases "bit a n"; cases "bit b n") (auto simp: take_bit_Suc_from_most)
qed

lemma length_reassign [simp]: "length (reassign ld b0 b1 i d) = length d"
  by (induction ld b0 b1 i d rule: reassign.induct) (subst reassign.simps, simp)

lemma step_dvd:
  fixes q :: nat
  assumes "0 < q"
  shows "(i \<le> j \<and> q dvd (j - i)) \<longleftrightarrow> (j = i \<or> (i + q \<le> j \<and> q dvd (j - (i + q))))"
proof
  assume a: "i \<le> j \<and> q dvd (j - i)"
  show "j = i \<or> (i + q \<le> j \<and> q dvd (j - (i + q)))"
  proof (cases "j = i")
    case False
    with a have "0 < j - i" by simp
    with a have "q \<le> j - i" by (simp add: dvd_imp_le)
    moreover have "q dvd (j - (i + q))" using dvd_diff_nat[of q "j - i" q] a by simp
    ultimately show ?thesis using a by auto
  qed simp
next
  assume "j = i \<or> (i + q \<le> j \<and> q dvd (j - (i + q)))"
  then show "i \<le> j \<and> q dvd (j - i)"
  proof
    assume "i + q \<le> j \<and> q dvd (j - (i + q))"
    then have c: "i + q \<le> j" and d: "q dvd (j - (i + q))" by simp_all
    have "q dvd (j - (i + q) + q)" using d by (rule dvd_add) simp
    moreover have "j - (i + q) + q = j - i" using c by simp
    ultimately show ?thesis using c by simp
  qed simp
qed

lemma reassign_nth:
  "j < length d \<Longrightarrow> reassign ld b0 b1 i d ! j =
     (if i \<le> j \<and> 2 ^ ld dvd (j - i) then (if \<not> bit j ld then b0 else b1) else d ! j)"
proof (induction ld b0 b1 i d rule: reassign.induct)
  case (1 ld b0 b1 i d)
  show ?case
  proof (cases "i < length d")
    case True
    have eq: "reassign ld b0 b1 i d = reassign ld b0 b1 (i + push_bit ld 1)
             (d[i := (if and i (push_bit ld 1) = 0 then b0 else b1)])"
      using True by (subst reassign.simps) simp
    have bitz: "and i (push_bit ld 1) = 0 \<longleftrightarrow> \<not> bit i ld"
      by (simp add: push_bit_eq_mult and_exp_eq_0_iff_not_bit)
    from 1 True have IH: "reassign ld b0 b1 (i + push_bit ld 1) (d[i := (if and i (push_bit ld 1) = 0 then b0 else b1)]) ! j =
      (if i + push_bit ld 1 \<le> j \<and> 2 ^ ld dvd (j - (i + push_bit ld 1)) then (if \<not> bit j ld then b0 else b1)
       else d[i := (if and i (push_bit ld 1) = 0 then b0 else b1)] ! j)"
      by simp
    have st: "(i \<le> j \<and> 2 ^ ld dvd (j - i)) \<longleftrightarrow> (j = i \<or> (i + 2 ^ ld \<le> j \<and> 2 ^ ld dvd (j - (i + 2 ^ ld))))"
      by (rule step_dvd) simp
    show ?thesis
      unfolding eq IH using True "1.prems" st bitz
      by (auto simp: push_bit_eq_mult)
  next
    case False
    with "1.prems" show ?thesis by (subst reassign.simps) simp
  qed
qed

lemma low_bits_dvd:
  assumes "i < 2 ^ ld"
  shows "(i \<le> j \<and> 2 ^ ld dvd (j - i)) \<longleftrightarrow> take_bit ld j = (i::nat)"
proof
  assume a: "i \<le> j \<and> 2 ^ ld dvd (j - i)"
  then have "j mod 2 ^ ld = i mod 2 ^ ld" by (simp add: mod_eq_dvd_iff_nat)
  then show "take_bit ld j = i" using assms by (simp add: take_bit_eq_mod)
next
  assume b: "take_bit ld j = i"
  then have "j mod 2 ^ ld = i mod 2 ^ ld" using assms by (simp add: take_bit_eq_mod)
  moreover have "i \<le> j" using b by (metis take_bit_nat_less_eq_self)
  ultimately show "i \<le> j \<and> 2 ^ ld dvd (j - i)" by (simp add: mod_eq_dvd_iff_nat)
qed

lemma dir_okD:
  assumes "dir_ok t" "i < 2 ^ global_depth t"
  shows "dir t ! i < length (store t)"
    and "depth (store t ! (dir t ! i)) \<le> global_depth t"
    and "j < 2 ^ global_depth t \<Longrightarrow> dir t ! j = dir t ! i \<longleftrightarrow>
           take_bit (depth (store t ! (dir t ! i))) j = take_bit (depth (store t ! (dir t ! i))) i"
  using assms unfolding dir_ok_def by auto

lemma dir_ok_length: "dir_ok t \<Longrightarrow> length (dir t) = 2 ^ global_depth t"
  by (simp add: dir_ok_def)

lemma take_bit_id_less: "(j::nat) < 2 ^ n \<Longrightarrow> take_bit n j = j"
  by (simp add: take_bit_nat_eq_self_iff)

lemma bit_top: "(j::nat) < 2 ^ Suc n \<Longrightarrow> bit j n \<longleftrightarrow> 2 ^ n \<le> j"
proof -
  assume a: "j < 2 ^ Suc n"
  have "take_bit (Suc n) j = j" using a by (rule take_bit_id_less)
  then have "j = 2 ^ n * of_bool (bit j n) + take_bit n j" by (simp add: take_bit_Suc_from_most)
  moreover have "take_bit n j < 2 ^ n" by simp
  moreover have "\<not> bit j n \<Longrightarrow> take_bit n j = j" using calculation by simp
  ultimately show ?thesis
    by (cases "bit j n") (auto simp: not_le)
qed

lemma take_bit_top: "(j::nat) < 2 ^ Suc n \<Longrightarrow> take_bit n j = (if j < 2 ^ n then j else j - 2 ^ n)"
proof -
  assume a: "j < 2 ^ Suc n"
  have "take_bit (Suc n) j = j" using a by (rule take_bit_id_less)
  then have "j = 2 ^ n * of_bool (bit j n) + take_bit n j" by (simp add: take_bit_Suc_from_most)
  then show ?thesis using bit_top[OF a] by (cases "bit j n") (auto simp: take_bit_id_less)
qed

lemma split_bucket_fields:
  "bucket_size (split_bucket idx t) = bucket_size t"
  "num_buckets (split_bucket idx t) = num_buckets t"
  "store (split_bucket idx t) =
     store t @ [new_Bucket (bucket_size t) (depth (store t ! (dir t ! idx)) + 1),
                new_Bucket (bucket_size t) (depth (store t ! (dir t ! idx)) + 1)]"
  "global_depth (split_bucket idx t) =
     (if depth (store t ! (dir t ! idx)) + 1 > global_depth t then global_depth t + 1 else global_depth t)"
  by (auto simp: split_bucket_def make_shared_def GetDepth_def Let_def)

lemma split_bucket_dir_raw:
  "dir (split_bucket idx t) =
     (if depth (store t ! (dir t ! idx)) + 1 > global_depth t
      then (dir t @ dir t)[idx := length (store t), idx + length (dir t) := Suc (length (store t))]
      else reassign (depth (store t ! (dir t ! idx))) (length (store t)) (Suc (length (store t)))
             (take_bit (depth (store t ! (dir t ! idx))) idx) (dir t))"
  by (simp add: split_bucket_def make_shared_def GetDepth_def Let_def
          take_bit_eq_mask mask_eq_exp_minus_1 push_bit_eq_mult)

lemma split_bucket_dir:
  assumes ok: "dir_ok t" and idx: "idx < 2 ^ global_depth t"
  defines "ob \<equiv> dir t ! idx"
  defines "ld \<equiv> depth (store t ! ob)"
  defines "t' \<equiv> split_bucket idx t"
  shows "length (dir t') = 2 ^ global_depth t'"
    and "j < 2 ^ global_depth t' \<Longrightarrow>
         dir t' ! j =
           (if dir t ! take_bit (global_depth t) j = ob
            then (if bit j ld then Suc (length (store t)) else length (store t))
            else dir t ! take_bit (global_depth t) j)"
proof -
  let ?g = "global_depth t"
  have len: "length (dir t) = 2 ^ ?g" using ok by (rule dir_ok_length)
  have ld_le: "ld \<le> ?g" using dir_okD(2)[OF ok idx] by (simp add: ld_def ob_def)
  have same: "\<And>i. i < 2 ^ ?g \<Longrightarrow> dir t ! i = ob \<longleftrightarrow> take_bit ld i = take_bit ld idx"
    using dir_okD(3)[OF ok idx] by (simp add: ld_def ob_def)
  have ld: "depth (store t ! (dir t ! idx)) = ld" by (simp add: ld_def ob_def)
  show "length (dir t') = 2 ^ global_depth t'"
    unfolding t'_def split_bucket_dir_raw split_bucket_fields ld using len by simp
  assume j: "j < 2 ^ global_depth t'"
  show "dir t' ! j =
           (if dir t ! take_bit ?g j = ob
            then (if bit j ld then Suc (length (store t)) else length (store t))
            else dir t ! take_bit ?g j)"
  proof (cases "ld + 1 > ?g")
    case True
    then have ldg: "ld = ?g" using ld_le by simp
    have g': "global_depth t' = Suc ?g"
      unfolding t'_def split_bucket_fields ld using True by simp
    have d': "dir t' = (dir t @ dir t)[idx := length (store t), idx + 2 ^ ?g := Suc (length (store t))]"
      unfolding t'_def split_bucket_dir_raw ld using True len by simp
    have j2: "j < 2 ^ Suc ?g" using j g' by simp
    have tb: "take_bit ?g j = (if j < 2 ^ ?g then j else j - 2 ^ ?g)" using j2 by (rule take_bit_top)
    have tbl: "take_bit ?g j < 2 ^ ?g" by simp
    have bt: "bit j ?g \<longleftrightarrow> 2 ^ ?g \<le> j" using j2 by (rule bit_top)
    have "take_bit ld (take_bit ?g j) = take_bit ?g j" "take_bit ld idx = idx"
      using idx by (simp_all add: ldg take_bit_id_less)
    then have hit: "dir t ! take_bit ?g j = ob \<longleftrightarrow> take_bit ?g j = idx"
      using same[OF tbl] by simp
    have jlen: "j < length (dir t @ dir t)" using j2 len by simp
    show ?thesis
    proof (cases "j < 2 ^ ?g")
      case True
      then have a: "take_bit ?g j = j" "\<not> bit j ld" "j \<noteq> idx + 2 ^ ?g" using tb bt ldg by simp_all
      have "dir t' ! j = (if j = idx then length (store t) else dir t ! j)"
        unfolding d' using a(3) jlen True len by (simp add: nth_list_update nth_append)
      then show ?thesis using hit a by auto
    next
      case False
      then have a: "take_bit ?g j = j - 2 ^ ?g" "bit j ld" "j \<noteq> idx" using tb bt ldg idx by simp_all
      have b: "j = idx + 2 ^ ?g \<longleftrightarrow> j - 2 ^ ?g = idx" using False by auto
      have "dir t' ! j = (if j = idx + 2 ^ ?g then Suc (length (store t)) else dir t ! (j - 2 ^ ?g))"
        unfolding d' using a(3) jlen False len by (simp add: nth_list_update nth_append)
      then show ?thesis using hit a b by auto
    qed
  next
    case False
    then have ldg: "ld < ?g" by simp
    have g': "global_depth t' = ?g"
      unfolding t'_def split_bucket_fields ld using False by simp
    have d': "dir t' = reassign ld (length (store t)) (Suc (length (store t))) (take_bit ld idx) (dir t)"
      unfolding t'_def split_bucket_dir_raw ld using False by simp
    have jl: "j < 2 ^ ?g" using j g' by simp
    have lb: "take_bit ld idx < 2 ^ ld" by simp
    have "dir t' ! j = (if take_bit ld j = take_bit ld idx
        then (if \<not> bit j ld then length (store t) else Suc (length (store t))) else dir t ! j)"
      unfolding d' using jl len low_bits_dvd[OF lb, of j] by (simp add: reassign_nth)
    then show ?thesis using same[OF jl] jl by (simp add: take_bit_id_less)
  qed
qed

lemma take_bit_take_bit_le: "l \<le> g \<Longrightarrow> take_bit l (take_bit g (j::nat)) = take_bit l j"
  by (simp add: min_def)

lemma split_bucket_dir_ok:
  assumes ok: "dir_ok t" and idx: "idx < 2 ^ global_depth t"
  shows "dir_ok (split_bucket idx t)"
proof -
  let ?g = "global_depth t"
  let ?t' = "split_bucket idx t"
  let ?g' = "global_depth ?t'"
  let ?N = "length (store t)"
  define ob where "ob = dir t ! idx"
  define ld where "ld = depth (store t ! ob)"
  have ld_le: "ld \<le> ?g" using dir_okD(2)[OF ok idx] by (simp add: ld_def ob_def)
  have obN: "ob < ?N" using dir_okD(1)[OF ok idx] by (simp add: ob_def)
  have g': "?g' = (if ld + 1 > ?g then ?g + 1 else ?g)"
    by (simp add: split_bucket_fields ld_def ob_def)
  have gg': "?g \<le> ?g'" "ld + 1 \<le> ?g'" using g' ld_le by auto
  have st: "store ?t' = store t @ [new_Bucket (bucket_size t) (ld + 1), new_Bucket (bucket_size t) (ld + 1)]"
    by (simp add: split_bucket_fields ld_def ob_def)
  have len: "length (dir ?t') = 2 ^ ?g'" using split_bucket_dir(1)[OF ok idx] .
  have nth: "\<And>j. j < 2 ^ ?g' \<Longrightarrow> dir ?t' ! j =
           (if dir t ! take_bit ?g j = ob
            then (if bit j ld then Suc ?N else ?N)
            else dir t ! take_bit ?g j)"
    using split_bucket_dir(2)[OF ok idx] by (simp add: ob_def ld_def)
  have hit: "\<And>j. dir t ! take_bit ?g j = ob \<longleftrightarrow> take_bit ld j = take_bit ld idx"
  proof -
    fix j :: nat
    have "take_bit ?g j < 2 ^ ?g" by simp
    from dir_okD(3)[OF ok idx this]
    show "dir t ! take_bit ?g j = ob \<longleftrightarrow> take_bit ld j = take_bit ld idx"
      using ld_le by (simp add: ob_def ld_def take_bit_take_bit_le)
  qed
  have slot: "dir ?t' ! i < length (store ?t') \<and>
        depth (store ?t' ! (dir ?t' ! i)) \<le> ?g' \<and>
        (\<forall>j < length (dir ?t').
           dir ?t' ! j = dir ?t' ! i \<longleftrightarrow>
           take_bit (depth (store ?t' ! (dir ?t' ! i))) j = take_bit (depth (store ?t' ! (dir ?t' ! i))) i)"
    if i: "i < 2 ^ ?g'" for i
  proof (cases "dir t ! take_bit ?g i = ob")
    case True
    then have di: "dir ?t' ! i = (if bit i ld then Suc ?N else ?N)" using nth[OF i] by simp
    have dep: "depth (store ?t' ! (dir ?t' ! i)) = Suc ld"
      unfolding di st by (simp add: nth_append new_Bucket_def)
    have ti: "take_bit ld i = take_bit ld idx" using True hit by simp
    have eqv: "dir ?t' ! j = dir ?t' ! i \<longleftrightarrow> take_bit (Suc ld) j = take_bit (Suc ld) i"
      if j: "j < 2 ^ ?g'" for j
    proof (cases "dir t ! take_bit ?g j = ob")
      case True
      then have "take_bit ld j = take_bit ld i" using hit ti by simp
      moreover have "dir ?t' ! j = (if bit j ld then Suc ?N else ?N)" using nth[OF j] True by simp
      ultimately show ?thesis unfolding di take_bit_Suc_eq_iff by auto
    next
      case False
      then have "take_bit ld j \<noteq> take_bit ld i" using hit ti by simp
      moreover have "dir ?t' ! j = dir t ! take_bit ?g j" using nth[OF j] False by simp
      moreover have "dir t ! take_bit ?g j < ?N"
        using dir_okD(1)[OF ok, of "take_bit ?g j"] by simp
      ultimately show ?thesis unfolding di take_bit_Suc_eq_iff by auto
    qed
    show ?thesis unfolding dep using eqv gg' len by (simp add: di st)
  next
    case False
    define r where "r = dir t ! take_bit ?g i"
    have tl: "take_bit ?g i < 2 ^ ?g" by simp
    have di: "dir ?t' ! i = r" using nth[OF i] False by (simp add: r_def)
    have rN: "r < ?N" using dir_okD(1)[OF ok tl] by (simp add: r_def)
    have sr: "store ?t' ! r = store t ! r" unfolding st using rN by (simp add: nth_append)
    have dl: "depth (store t ! r) \<le> ?g" using dir_okD(2)[OF ok tl] by (simp add: r_def)
    have eqv: "dir ?t' ! j = r \<longleftrightarrow> take_bit (depth (store t ! r)) j = take_bit (depth (store t ! r)) i"
      if j: "j < 2 ^ ?g'" for j
    proof -
      have tj: "take_bit ?g j < 2 ^ ?g" by simp
      have "dir ?t' ! j = r \<longleftrightarrow> dir t ! take_bit ?g j = r"
        using nth[OF j] rN False by (auto simp: r_def)
      also have "\<dots> \<longleftrightarrow> take_bit (depth (store t ! r)) (take_bit ?g j) = take_bit (depth (store t ! r)) (take_bit ?g i)"
        using dir_okD(3)[OF ok tl tj] by (simp add: r_def)
      finally show ?thesis using dl by (simp add: take_bit_take_bit_le)
    qed
    show ?thesis unfolding di sr using eqv dl gg' len rN by (simp add: st)
  qed
  show ?thesis unfolding dir_ok_def using len slot by simp
qed

lemma IndexOf_less: "IndexOf h t key < 2 ^ global_depth t"
  by (simp add: IndexOf_take_bit)

lemma Find_eq: "Find h key t = map_of (list_b (store t ! (dir t ! take_bit (global_depth t) (h key)))) key"
  by (simp add: Find_def Bucket_Find_map_of IndexOf_take_bit)

lemma split_bucket_buckets_ok:
  assumes ok: "dir_ok t" and bok: "buckets_ok h t" and idx: "idx < 2 ^ global_depth t"
  shows "buckets_ok h (split_bucket idx t)"
proof -
  let ?g = "global_depth t"
  let ?t' = "split_bucket idx t"
  let ?g' = "global_depth ?t'"
  let ?N = "length (store t)"
  define ob where "ob = dir t ! idx"
  define ld where "ld = depth (store t ! ob)"
  have st: "store ?t' = store t @ [new_Bucket (bucket_size t) (ld + 1), new_Bucket (bucket_size t) (ld + 1)]"
    by (simp add: split_bucket_fields ld_def ob_def)
  have len: "length (dir ?t') = 2 ^ ?g'" using split_bucket_dir(1)[OF ok idx] .
  have lent: "length (dir t) = 2 ^ ?g" using ok by (rule dir_ok_length)
  have nth: "\<And>j. j < 2 ^ ?g' \<Longrightarrow> dir ?t' ! j =
           (if dir t ! take_bit ?g j = ob
            then (if bit j ld then Suc ?N else ?N)
            else dir t ! take_bit ?g j)"
    using split_bucket_dir(2)[OF ok idx] by (simp add: ob_def ld_def)
  have slot: "size_b (store ?t' ! (dir ?t' ! i)) = bucket_size ?t' \<and>
        length (list_b (store ?t' ! (dir ?t' ! i))) \<le> bucket_size ?t' \<and>
        distinct (map fst (list_b (store ?t' ! (dir ?t' ! i)))) \<and>
        (\<forall>p \<in> set (list_b (store ?t' ! (dir ?t' ! i))).
           take_bit (depth (store ?t' ! (dir ?t' ! i))) (h (fst p)) =
           take_bit (depth (store ?t' ! (dir ?t' ! i))) i)"
    if i: "i < 2 ^ ?g'" for i
  proof (cases "dir t ! take_bit ?g i = ob")
    case True
    then have di: "dir ?t' ! i = (if bit i ld then Suc ?N else ?N)" using nth[OF i] by simp
    show ?thesis unfolding di st by (simp add: nth_append new_Bucket_def split_bucket_fields)
  next
    case False
    define r where "r = dir t ! take_bit ?g i"
    have tl: "take_bit ?g i < 2 ^ ?g" by simp
    have di: "dir ?t' ! i = r" using nth[OF i] False by (simp add: r_def)
    have rN: "r < ?N" using dir_okD(1)[OF ok tl] by (simp add: r_def)
    have sr: "store ?t' ! r = store t ! r" unfolding st using rN by (simp add: nth_append)
    have dl: "depth (store t ! r) \<le> ?g" using dir_okD(2)[OF ok tl] by (simp add: r_def)
    have old: "size_b (store t ! r) = bucket_size t \<and>
        length (list_b (store t ! r)) \<le> bucket_size t \<and>
        distinct (map fst (list_b (store t ! r))) \<and>
        (\<forall>p \<in> set (list_b (store t ! r)).
           take_bit (depth (store t ! r)) (h (fst p)) =
           take_bit (depth (store t ! r)) (take_bit ?g i))"
      using bok tl lent unfolding buckets_ok_def r_def by simp
    show ?thesis unfolding di sr using old dl
      by (simp add: split_bucket_fields take_bit_take_bit_le)
  qed
  show ?thesis unfolding buckets_ok_def using len slot by simp
qed

lemma split_bucket_inv:
  "eht_inv h t \<Longrightarrow> idx < 2 ^ global_depth t \<Longrightarrow> eht_inv h (split_bucket idx t)"
  by (simp add: eht_inv_def split_bucket_dir_ok split_bucket_buckets_ok)

lemma split_bucket_Find:
  assumes ok: "dir_ok t" and idx: "idx < 2 ^ global_depth t"
  shows "Find h key (split_bucket idx t) =
           (if dir t ! IndexOf h t key = dir t ! idx then None else Find h key t)"
proof -
  let ?g = "global_depth t"
  let ?t' = "split_bucket idx t"
  let ?g' = "global_depth ?t'"
  let ?N = "length (store t)"
  define ob where "ob = dir t ! idx"
  define ld where "ld = depth (store t ! ob)"
  have ld_le: "ld \<le> ?g" using dir_okD(2)[OF ok idx] by (simp add: ld_def ob_def)
  have g': "?g' = (if ld + 1 > ?g then ?g + 1 else ?g)"
    by (simp add: split_bucket_fields ld_def ob_def)
  have gg': "?g \<le> ?g'" using g' by auto
  have st: "store ?t' = store t @ [new_Bucket (bucket_size t) (ld + 1), new_Bucket (bucket_size t) (ld + 1)]"
    by (simp add: split_bucket_fields ld_def ob_def)
  define j where "j = take_bit ?g' (h key)"
  have j: "j < 2 ^ ?g'" by (simp add: j_def)
  have tj: "take_bit ?g j = take_bit ?g (h key)" unfolding j_def using gg' by (rule take_bit_take_bit_le)
  have nth: "dir ?t' ! j =
           (if dir t ! take_bit ?g (h key) = ob
            then (if bit j ld then Suc ?N else ?N)
            else dir t ! take_bit ?g (h key))"
    using split_bucket_dir(2)[OF ok idx j] by (simp add: ob_def ld_def tj)
  have rN: "dir t ! take_bit ?g (h key) < ?N"
    using dir_okD(1)[OF ok, of "take_bit ?g (h key)"] by simp
  show ?thesis
    unfolding Find_eq IndexOf_take_bit j_def[symmetric] nth ob_def[symmetric] st
    using rN by (simp add: nth_append new_Bucket_def)
qed

lemma Bucket_Insert_cases:
  "(Bucket_Insert key v b = (True, b\<lparr>list_b := assign_first key v (list_b b)\<rparr>) \<and>
      key \<in> fst ` set (list_b b)) \<or>
   (Bucket_Insert key v b = (False, b) \<and> key \<notin> fst ` set (list_b b) \<and>
      length (list_b b) = size_b b) \<or>
   (Bucket_Insert key v b = (True, b\<lparr>list_b := list_b b @ [(key, v)]\<rparr>) \<and>
      key \<notin> fst ` set (list_b b) \<and> length (list_b b) \<noteq> size_b b)"
  by (cases "first_with_key key (list_b b) = None"; cases "IsFull b")
     (auto simp: Bucket_Insert_def first_with_key_None IsFull_def)

lemma Bucket_Insert_True:
  fixes key :: 'k and v :: 'v and b :: "('k, 'v) Bucket"
  assumes "Bucket_Insert key v b = (True, b')"
  shows "depth b' = depth b" "size_b b' = size_b b"
    "map_of (list_b b') = (map_of (list_b b))(key \<mapsto> v)"
    "fst ` set (list_b b') = insert key (fst ` set (list_b b))"
    "distinct (map fst (list_b b)) \<Longrightarrow> distinct (map fst (list_b b'))"
    "length (list_b b) \<le> size_b b \<Longrightarrow> length (list_b b') \<le> size_b b"
proof -
  have "depth b' = depth b \<and> size_b b' = size_b b \<and>
    map_of (list_b b') = (map_of (list_b b))(key \<mapsto> v) \<and>
    fst ` set (list_b b') = insert key (fst ` set (list_b b)) \<and>
    (distinct (map fst (list_b b)) \<longrightarrow> distinct (map fst (list_b b'))) \<and>
    (length (list_b b) \<le> size_b b \<longrightarrow> length (list_b b') \<le> size_b b)"
  proof -
    consider (overwrite) "Bucket_Insert key v b = (True, b\<lparr>list_b := assign_first key v (list_b b)\<rparr>)"
        "key \<in> fst ` set (list_b b)"
      | (full) "Bucket_Insert key v b = (False, b)"
      | (append) "Bucket_Insert key v b = (True, b\<lparr>list_b := list_b b @ [(key, v)]\<rparr>)"
        "key \<notin> fst ` set (list_b b)" "length (list_b b) \<noteq> size_b b"
      using Bucket_Insert_cases[of key v b] by blast
    then show ?thesis
    proof cases
    case overwrite
    then have b': "b' = b\<lparr>list_b := assign_first key v (list_b b)\<rparr>" using assms by simp
    have m: "map_of (list_b b) key \<noteq> None" using overwrite(2) by (simp add: map_of_eq_None_iff)
    have "set (map fst (assign_first key v (list_b b))) = set (map fst (list_b b))"
      by (simp only: map_fst_assign_first)
    then have "fst ` set (assign_first key v (list_b b)) = fst ` set (list_b b)" by simp
    then show ?thesis using overwrite(2) m
      by (auto simp: b' fun_eq_iff map_of_assign_first map_fst_assign_first length_assign_first)
  next
    case full
    then show ?thesis using assms by simp
  next
    case append
    then have b': "b' = b\<lparr>list_b := list_b b @ [(key, v)]\<rparr>" using assms by simp
    have m: "map_of (list_b b) key = None" using append(2) by (simp add: map_of_eq_None_iff)
    have "map_of (list_b b @ [(key, v)]) x = ((map_of (list_b b))(key \<mapsto> v)) x" for x
      using m by (cases "x = key") (auto simp: map_add_def split: option.splits)
    then show ?thesis using append(2,3) by (auto simp: b' fun_eq_iff)
  qed
  qed
  then show "depth b' = depth b" "size_b b' = size_b b"
    "map_of (list_b b') = (map_of (list_b b))(key \<mapsto> v)"
    "fst ` set (list_b b') = insert key (fst ` set (list_b b))"
    "distinct (map fst (list_b b)) \<Longrightarrow> distinct (map fst (list_b b'))"
    "length (list_b b) \<le> size_b b \<Longrightarrow> length (list_b b') \<le> size_b b"
    by simp_all
qed

lemma Bucket_Insert_False:
  fixes key :: 'k and v :: 'v and b :: "('k, 'v) Bucket"
  assumes "Bucket_Insert key v b = (False, b')"
  shows "b' = b" "key \<notin> fst ` set (list_b b)" "length (list_b b) = size_b b"
  using assms Bucket_Insert_cases[of key v b] by auto

lemma Bucket_Remove_props:
  assumes "Bucket_Remove key b = (res, b')"
  shows "depth b' = depth b" "size_b b' = size_b b"
    "set (list_b b') \<subseteq> set (list_b b)"
    "length (list_b b') \<le> length (list_b b)"
    "distinct (map fst (list_b b)) \<Longrightarrow> distinct (map fst (list_b b'))"
    "distinct (map fst (list_b b)) \<Longrightarrow> map_of (list_b b') = (map_of (list_b b))(key := None)"
    "res \<longleftrightarrow> map_of (list_b b) key \<noteq> None"
proof -
  show "depth b' = depth b" "size_b b' = size_b b" "set (list_b b') \<subseteq> set (list_b b)"
    using assms by (auto simp: Bucket_Remove_def split: option.splits)
  show "length (list_b b') \<le> length (list_b b)"
    using assms by (auto simp: Bucket_Remove_def removeAll_filter_not_eq split: option.splits)
  show "distinct (map fst (list_b b)) \<Longrightarrow> distinct (map fst (list_b b'))"
    using assms by (auto simp: Bucket_Remove_def removeAll_filter_not_eq distinct_map_filter split: option.splits)
  have fm: "map_option snd (first_with_key key (list_b b)) = map_of (list_b b) key"
    by (rule first_with_key_map_of)
  show "res \<longleftrightarrow> map_of (list_b b) key \<noteq> None"
  proof (cases "first_with_key key (list_b b)")
    case None
    then show ?thesis using assms fm by (simp add: Bucket_Remove_def)
  next
    case (Some p)
    then have "map_of (list_b b) key = Some (snd p)" using fm by simp
    then show ?thesis using assms Some by (simp add: Bucket_Remove_def)
  qed
  assume d: "distinct (map fst (list_b b))"
  show "map_of (list_b b') = (map_of (list_b b))(key := None)"
  proof (cases "first_with_key key (list_b b)")
    case None
    then have "map_of (list_b b) key = None" using fm by simp
    then show ?thesis using assms None by (auto simp: Bucket_Remove_def fun_eq_iff)
  next
    case (Some p)
    then have "p \<in> set (list_b b)" "fst p = key" using first_with_key_Some by fastforce+
    then have "(key, snd p) \<in> set (list_b b)" by auto
    from map_of_removeAll[OF d this] show ?thesis
      using assms Some \<open>fst p = key\<close> by (auto simp: Bucket_Remove_def)
  qed
qed

lemma store_update_dir_ok:
  assumes ok: "dir_ok t" and d: "depth b' = depth (store t ! r)"
  shows "dir_ok (t\<lparr>store := (store t)[r := b']\<rparr>)"
proof -
  have eq: "depth ((store t)[r := b'] ! x) = depth (store t ! x)" if "x < length (store t)" for x
    using d that by (cases "x = r") simp_all
  have "depth ((store t)[r := b'] ! (dir t ! i)) = depth (store t ! (dir t ! i))"
    if "i < length (dir t)" for i
    using eq[of "dir t ! i"] ok that unfolding dir_ok_def by simp
  then show ?thesis using ok unfolding dir_ok_def by simp
qed

lemma store_update_buckets_ok:
  assumes ok: "dir_ok t" and bok: "buckets_ok h t" and i0: "i0 < 2 ^ global_depth t"
    and d: "depth b' = depth (store t ! (dir t ! i0))"
    and s: "size_b b' = bucket_size t" "length (list_b b') \<le> bucket_size t"
           "distinct (map fst (list_b b'))"
    and hb: "\<forall>p \<in> set (list_b b'). take_bit (depth b') (h (fst p)) = take_bit (depth b') i0"
  shows "buckets_ok h (t\<lparr>store := (store t)[dir t ! i0 := b']\<rparr>)"
proof -
  let ?t' = "t\<lparr>store := (store t)[dir t ! i0 := b']\<rparr>"
  have len: "length (dir t) = 2 ^ global_depth t" using ok by (rule dir_ok_length)
  have slot: "size_b (store ?t' ! (dir ?t' ! i)) = bucket_size ?t' \<and>
        length (list_b (store ?t' ! (dir ?t' ! i))) \<le> bucket_size ?t' \<and>
        distinct (map fst (list_b (store ?t' ! (dir ?t' ! i)))) \<and>
        (\<forall>p \<in> set (list_b (store ?t' ! (dir ?t' ! i))).
           take_bit (depth (store ?t' ! (dir ?t' ! i))) (h (fst p)) =
           take_bit (depth (store ?t' ! (dir ?t' ! i))) i)"
    if i: "i < 2 ^ global_depth t" for i
  proof (cases "dir t ! i = dir t ! i0")
    case True
    have "take_bit (depth b') i = take_bit (depth b') i0"
      using dir_okD(3)[OF ok i0 i] True d by simp
    moreover have "store ?t' ! (dir ?t' ! i) = b'"
      using True dir_okD(1)[OF ok i0] by simp
    ultimately show ?thesis using s hb by simp
  next
    case False
    then have "store ?t' ! (dir ?t' ! i) = store t ! (dir t ! i)" by simp
    then show ?thesis using bok i len unfolding buckets_ok_def by simp
  qed
  show ?thesis unfolding buckets_ok_def using slot len by simp
qed

lemma store_update_Find:
  assumes ok: "dir_ok t"
  shows "Find h key (t\<lparr>store := (store t)[r := b']\<rparr>) =
           (if dir t ! IndexOf h t key = r then map_of (list_b b') key else Find h key t)"
  using dir_okD(1)[OF ok IndexOf_less, of h key]
  by (simp add: Find_eq IndexOf_take_bit nth_list_update)

lemma map_of_rev_distinct: "distinct (map fst xs) \<Longrightarrow> map_of (rev xs) = map_of xs"
  by (rule map_of_inject_set[THEN iffD2]) (simp_all add: rev_map[symmetric])

lemma key_slot:
  assumes ok: "dir_ok t" and i: "i < 2 ^ global_depth t"
  shows "dir t ! IndexOf h t key = dir t ! i \<longleftrightarrow>
         take_bit (depth (store t ! (dir t ! i))) (h key) = take_bit (depth (store t ! (dir t ! i))) i"
  using dir_okD(3)[OF ok i IndexOf_less, of h key] dir_okD(2)[OF ok i]
  by (simp add: IndexOf_take_bit take_bit_take_bit_le)

lemma insert_direct:
  fixes t :: "('k, 'v) ExtendibleHashTable"
  assumes inv: "eht_inv h t"
    and ins: "Bucket_Insert key v (store t ! (dir t ! IndexOf h t key)) = (True, b')"
  defines "t' \<equiv> t\<lparr>store := (store t)[dir t ! IndexOf h t key := b']\<rparr>"
  shows "eht_inv h t'" and "contents h t' = (contents h t)(key \<mapsto> v)"
proof -
  let ?i = "IndexOf h t key"
  let ?b = "store t ! (dir t ! ?i)"
  have ok: "dir_ok t" and bok: "buckets_ok h t" using inv by (simp_all add: eht_inv_def)
  have i: "?i < 2 ^ global_depth t" by (rule IndexOf_less)
  have len: "length (dir t) = 2 ^ global_depth t" using ok by (rule dir_ok_length)
  note bi = Bucket_Insert_True[OF ins]
  have old: "size_b ?b = bucket_size t" "length (list_b ?b) \<le> bucket_size t"
        "distinct (map fst (list_b ?b))"
        "\<forall>p \<in> set (list_b ?b). take_bit (depth ?b) (h (fst p)) = take_bit (depth ?b) ?i"
    using bok i len unfolding buckets_ok_def by simp_all
  have own: "take_bit (depth ?b) (h key) = take_bit (depth ?b) ?i"
    using key_slot[OF ok i, of h key] by simp
  have "\<forall>k \<in> fst ` set (list_b b'). take_bit (depth ?b) (h k) = take_bit (depth ?b) ?i"
    unfolding bi(4) using old(4) own by auto
  then have hb: "\<forall>p \<in> set (list_b b'). take_bit (depth b') (h (fst p)) = take_bit (depth b') ?i"
    unfolding bi(1) by simp
  have "dir_ok t'" unfolding t'_def using ok bi(1) by (rule store_update_dir_ok)
  moreover have "buckets_ok h t'" unfolding t'_def
    using ok bok i bi(1) _ _ _ hb
  proof (rule store_update_buckets_ok)
    show "size_b b' = bucket_size t" using bi(2) old(1) by simp
    show "length (list_b b') \<le> bucket_size t" using bi(6) old(1,2) by simp
    show "distinct (map fst (list_b b'))" using bi(5) old(3) by simp
  qed
  ultimately show "eht_inv h t'" by (simp add: eht_inv_def)
  show "contents h t' = (contents h t)(key \<mapsto> v)"
  proof
    fix k
    show "contents h t' k = ((contents h t)(key \<mapsto> v)) k"
      unfolding contents_def t'_def store_update_Find[OF ok] bi(3)
      by (auto simp: Find_eq IndexOf_take_bit)
  qed
qed

lemma Remove_eht_correct:
  fixes t :: "('k, 'v) ExtendibleHashTable"
  assumes inv: "eht_inv h t" and rm: "Remove_eht h key t = (res, t')"
  shows "eht_inv h t'" and "contents h t' = (contents h t)(key := None)"
    and "res \<longleftrightarrow> contents h t key \<noteq> None"
    and "bucket_size t' = bucket_size t" "num_buckets t' = num_buckets t"
    "global_depth t' = global_depth t" "dir t' = dir t"
proof -
  let ?i = "IndexOf h t key"
  let ?b = "store t ! (dir t ! ?i)"
  obtain b' where br: "Bucket_Remove key ?b = (res, b')"
    and t': "t' = t\<lparr>store := (store t)[dir t ! ?i := b']\<rparr>"
    using rm by (cases "Bucket_Remove key ?b") (auto simp: Remove_eht_def Let_def)
  have ok: "dir_ok t" and bok: "buckets_ok h t" using inv by (simp_all add: eht_inv_def)
  have i: "?i < 2 ^ global_depth t" by (rule IndexOf_less)
  have len: "length (dir t) = 2 ^ global_depth t" using ok by (rule dir_ok_length)
  note bp = Bucket_Remove_props[OF br]
  have old: "size_b ?b = bucket_size t" "length (list_b ?b) \<le> bucket_size t"
        "distinct (map fst (list_b ?b))"
        "\<forall>p \<in> set (list_b ?b). take_bit (depth ?b) (h (fst p)) = take_bit (depth ?b) ?i"
    using bok i len unfolding buckets_ok_def by simp_all
  have hb: "\<forall>p \<in> set (list_b b'). take_bit (depth b') (h (fst p)) = take_bit (depth b') ?i"
    unfolding bp(1) using old(4) bp(3) by auto
  have "dir_ok t'" unfolding t' using ok bp(1) by (rule store_update_dir_ok)
  moreover have "buckets_ok h t'" unfolding t'
    using ok bok i bp(1) _ _ _ hb
  proof (rule store_update_buckets_ok)
    show "size_b b' = bucket_size t" using bp(2) old(1) by simp
    show "length (list_b b') \<le> bucket_size t" using bp(4) old(2) by simp
    show "distinct (map fst (list_b b'))" using bp(5) old(3) by simp
  qed
  ultimately show "eht_inv h t'" by (simp add: eht_inv_def)
  show "contents h t' = (contents h t)(key := None)"
  proof
    fix k
    show "contents h t' k = ((contents h t)(key := None)) k"
      unfolding contents_def t' store_update_Find[OF ok] bp(6)[OF old(3)]
      by (auto simp: Find_eq IndexOf_take_bit)
  qed
  show "res \<longleftrightarrow> contents h t key \<noteq> None"
    using bp(7) by (simp add: contents_def Find_eq IndexOf_take_bit)
  show "bucket_size t' = bucket_size t" "num_buckets t' = num_buckets t"
    "global_depth t' = global_depth t" "dir t' = dir t"
    by (simp_all add: t')
qed

lemma for_each_insert_post:
  assumes step: "\<And>p s s'. f p s = Some s' \<Longrightarrow> eht_inv h s \<Longrightarrow> insert_post h (fst p) (snd p) s s'"
  shows "for_each f xs s = Some s' \<Longrightarrow> eht_inv h s \<Longrightarrow>
         eht_inv h s' \<and> contents h s' = contents h s ++ map_of (rev xs) \<and>
         bucket_size s' = bucket_size s \<and> num_buckets s' = num_buckets s \<and>
         global_depth s \<le> global_depth s'"
proof (induction xs arbitrary: s)
  case Nil
  then show ?case by simp
next
  case (Cons p xs)
  from Cons.prems(1) obtain s1 where s1: "f p s = Some s1" and rest: "for_each f xs s1 = Some s'"
    by (auto simp: bind_eq_Some_conv)
  from step[OF s1 Cons.prems(2)] have p1: "insert_post h (fst p) (snd p) s s1" .
  then have inv1: "eht_inv h s1" by (simp add: insert_post_def)
  from Cons.IH[OF rest inv1] p1 show ?case
    by (auto simp: insert_post_def map_add_def fun_eq_iff split: option.splits)
qed

lemma split_then_redistribute_contents:
  fixes t :: "('k, 'v) ExtendibleHashTable"
  assumes inv: "eht_inv h t" and idx: "idx < 2 ^ global_depth t"
  shows "contents h (split_bucket idx t) ++ map_of (rev (list_b (store t ! (dir t ! idx)))) = contents h t"
proof
  fix k
  let ?xs = "list_b (store t ! (dir t ! idx))"
  have ok: "dir_ok t" and bok: "buckets_ok h t" using inv by (simp_all add: eht_inv_def)
  have len: "length (dir t) = 2 ^ global_depth t" using ok by (rule dir_ok_length)
  have d: "distinct (map fst ?xs)"
    and hb: "\<forall>p \<in> set ?xs. take_bit (depth (store t ! (dir t ! idx))) (h (fst p)) =
              take_bit (depth (store t ! (dir t ! idx))) idx"
    using bok idx len unfolding buckets_ok_def by simp_all
  have rv: "map_of (rev ?xs) = map_of ?xs" using d by (rule map_of_rev_distinct)
  show "(contents h (split_bucket idx t) ++ map_of (rev ?xs)) k = contents h t k"
  proof (cases "map_of ?xs k")
    case None
    then show ?thesis
      unfolding rv contents_def split_bucket_Find[OF ok idx]
      by (auto simp: map_add_def Find_eq IndexOf_take_bit)
  next
    case (Some v)
    then have "(k, v) \<in> set ?xs" by (rule map_of_SomeD)
    with hb have "take_bit (depth (store t ! (dir t ! idx))) (h k) =
              take_bit (depth (store t ! (dir t ! idx))) idx" by force
    then have "dir t ! IndexOf h t k = dir t ! idx" using key_slot[OF ok idx] by simp
    then show ?thesis
      unfolding rv contents_def using Some
      by (simp add: map_add_def Find_eq IndexOf_take_bit)
  qed
qed

lemma InsertInternal_step:
  fixes t :: "('k, 'v) ExtendibleHashTable"
  assumes IH: "\<And>h key v t t'. ins h key v t = Some (t' :: ('k, 'v) ExtendibleHashTable) \<Longrightarrow>
      eht_inv h t \<longrightarrow> insert_post h key v t t'"
    and run: "(let original_dir_index = IndexOf h t key;
          original_bucket = dir t ! original_dir_index;
          res = Bucket_Insert key v (store t ! original_bucket)
      in if fst res then Some (t\<lparr>store := (store t)[original_bucket := snd res]\<rparr>)
         else
           Option.bind
             (for_each (\<lambda>p. ins h (fst p) (snd p))
                (GetItems (store t ! original_bucket)) (split_bucket original_dir_index t))
             (ins h key v)) = Some t'"
  shows "eht_inv h t \<longrightarrow> insert_post h key v t t'"
proof
  assume inv: "eht_inv h t"
  let ?i = "IndexOf h t key"
  let ?r = "dir t ! ?i"
  obtain ok' b' where bi: "Bucket_Insert key v (store t ! ?r) = (ok', b')"
    by (cases "Bucket_Insert key v (store t ! ?r)")
  have i: "?i < 2 ^ global_depth t" by (rule IndexOf_less)
  show "insert_post h key v t t'"
  proof (cases ok')
    case True
    then have t': "t' = t\<lparr>store := (store t)[?r := b']\<rparr>"
      using run bi by (simp add: Let_def)
    have bi': "Bucket_Insert key v (store t ! ?r) = (True, b')" using bi True by simp
    show ?thesis
      unfolding insert_post_def t'
      using insert_direct[OF inv bi'] by simp
  next
    case False
    let ?ts = "split_bucket ?i t"
    from run bi False obtain s1 where
      red: "for_each (\<lambda>p. ins h (fst p) (snd p)) (list_b (store t ! ?r)) ?ts = Some s1"
      and fin: "ins h key v s1 = Some t'"
      by (auto simp: Let_def GetItems_def bind_eq_Some_conv)
    have invs: "eht_inv h ?ts" using inv i by (rule split_bucket_inv)
    have step: "\<And>p s s'. ins h (fst p) (snd p) s = Some s' \<Longrightarrow> eht_inv h s \<Longrightarrow>
        insert_post h (fst p) (snd p) s s'"
      using IH by blast
    from for_each_insert_post[where f="\<lambda>p. ins h (fst p) (snd p)" and h=h, OF step red invs]
    have r1: "eht_inv h s1" "contents h s1 = contents h ?ts ++ map_of (rev (list_b (store t ! ?r)))"
      "bucket_size s1 = bucket_size ?ts" "num_buckets s1 = num_buckets ?ts"
      "global_depth ?ts \<le> global_depth s1"
      by simp_all
    have c1: "contents h s1 = contents h t"
      unfolding r1(2) using inv i by (rule split_then_redistribute_contents)
    from IH[OF fin] r1(1) have "insert_post h key v s1 t'" by simp
    then show ?thesis
      unfolding insert_post_def c1 using r1(3,4,5)
      by (auto simp: split_bucket_fields split: if_splits)
  qed
qed

lemma InsertInternal_post:
  fixes t :: "('k, 'v) ExtendibleHashTable"
  assumes "InsertInternal h key v t = Some t'" and "eht_inv h t"
  shows "insert_post h key v t t'"
proof -
  have "eht_inv h t \<longrightarrow> insert_post h key v t t'"
  proof (rule InsertInternal.raw_induct[where P = "\<lambda>h key v t t'. eht_inv h t \<longrightarrow> insert_post h key v t t'",
        OF _ assms(1)])
    fix ins :: "('k \<Rightarrow> nat) \<Rightarrow> 'k \<Rightarrow> 'v \<Rightarrow> ('k, 'v) ExtendibleHashTable \<Rightarrow> ('k, 'v) ExtendibleHashTable option"
    fix h key v t t'
    assume IH: "\<And>h key v t t'. ins h key v t = Some t' \<Longrightarrow> eht_inv h t \<longrightarrow> insert_post h key v t t'"
      and run: "(let original_dir_index = IndexOf h t key;
          original_bucket = dir t ! original_dir_index;
          res = Bucket_Insert key v (store t ! original_bucket)
      in if fst res then Some (t\<lparr>store := (store t)[original_bucket := snd res]\<rparr>)
         else
           Option.bind
             (for_each (\<lambda>p. ins h (fst p) (snd p))
                (GetItems (store t ! original_bucket)) (split_bucket original_dir_index t))
             (ins h key v)) = Some t'"
    from IH run show "eht_inv h t \<longrightarrow> insert_post h key v t t'"
      by (rule InsertInternal_step)
  qed
  then show ?thesis using assms(2) by simp
qed

lemma InsertInternal_direct:
  "Bucket_Insert key v (store t ! (dir t ! IndexOf h t key)) = (True, b') \<Longrightarrow>
   InsertInternal h key v t = Some (t\<lparr>store := (store t)[dir t ! IndexOf h t key := b']\<rparr>)"
  by (subst InsertInternal.simps) (simp add: Let_def)

lemma InsertInternal_split:
  "Bucket_Insert key v (store t ! (dir t ! IndexOf h t key)) = (False, b') \<Longrightarrow>
   InsertInternal h key v t =
     Option.bind
       (for_each (\<lambda>p. InsertInternal h (fst p) (snd p))
          (list_b (store t ! (dir t ! IndexOf h t key))) (split_bucket (IndexOf h t key) t))
       (InsertInternal h key v)"
  by (subst InsertInternal.simps) (simp add: Let_def GetItems_def)

lemma bit_take_bit_less: "ld < g \<Longrightarrow> bit (take_bit g (x::nat)) ld = bit x ld"
  by (simp add: bit_take_bit_iff)

lemma split_bucket_ref:
  assumes ok: "dir_ok t" and idx: "idx < 2 ^ global_depth t"
  shows "dir (split_bucket idx t) ! IndexOf h (split_bucket idx t) key =
           (if dir t ! IndexOf h t key = dir t ! idx
            then (if bit (h key) (depth (store t ! (dir t ! idx))) then Suc (length (store t))
                  else length (store t))
            else dir t ! IndexOf h t key)"
proof -
  let ?g = "global_depth t"
  let ?t' = "split_bucket idx t"
  let ?g' = "global_depth ?t'"
  define ld where "ld = depth (store t ! (dir t ! idx))"
  have ld_le: "ld \<le> ?g" using dir_okD(2)[OF ok idx] by (simp add: ld_def)
  have g': "?g' = (if ld + 1 > ?g then ?g + 1 else ?g)"
    by (simp add: split_bucket_fields ld_def)
  have gg': "?g \<le> ?g'" "ld < ?g'" using g' ld_le by auto
  define j where "j = take_bit ?g' (h key)"
  have j: "j < 2 ^ ?g'" by (simp add: j_def)
  have tj: "take_bit ?g j = take_bit ?g (h key)" unfolding j_def using gg'(1) by (rule take_bit_take_bit_le)
  have bj: "bit j ld = bit (h key) ld" unfolding j_def using gg'(2) by (rule bit_take_bit_less)
  show ?thesis
    using split_bucket_dir(2)[OF ok idx j]
    by (simp add: IndexOf_take_bit j_def[symmetric] tj bj ld_def[symmetric])
qed

lemma Bucket_Insert_length:
  "Bucket_Insert key v b = (True, b') \<Longrightarrow> length (list_b b') \<le> Suc (length (list_b b))"
  using Bucket_Insert_cases[of key v b] by (auto simp: length_assign_first)

lemma Bucket_Insert_room:
  "length (list_b b) < size_b b \<Longrightarrow> \<exists>b'. Bucket_Insert key v b = (True, b')"
  using Bucket_Insert_cases[of key v b] by auto

lemma redistribute_direct_aux:
  fixes s :: "('k, 'v) ExtendibleHashTable"
  assumes N: "length (store ts) = N + 2"
    and tgt: "\<forall>p \<in> set ys. dir ts ! take_bit (global_depth ts) (h (fst p)) \<in> {N, Suc N}"
  shows "redist_state h ts N n s \<Longrightarrow> n + length ys \<le> bucket_size ts \<Longrightarrow>
         \<exists>s1. for_each (\<lambda>p. InsertInternal h (fst p) (snd p)) ys s = Some s1 \<and>
              redist_state h ts N (n + length ys) s1"
  using tgt
proof (induction ys arbitrary: s n)
  case Nil
  then show ?case by simp
next
  case (Cons p ys)
  let ?x = "dir s ! IndexOf h s (fst p)"
  have rs: "redist_state h ts N n s" by fact
  then have inv: "eht_inv h s" by (simp add: redist_state_def)
  then have ok: "dir_ok s" and bok: "buckets_ok h s" by (simp_all add: eht_inv_def)
  have x: "?x \<in> {N, Suc N}"
    using Cons.prems(3) rs by (simp add: redist_state_def IndexOf_take_bit)
  have i: "IndexOf h s (fst p) < 2 ^ global_depth s" by (rule IndexOf_less)
  have len: "length (dir s) = 2 ^ global_depth s" using ok by (rule dir_ok_length)
  have sz: "size_b (store s ! ?x) = bucket_size s"
    using bok i len unfolding buckets_ok_def by simp
  have "length (list_b (store s ! ?x)) \<le> n" using x rs by (auto simp: redist_state_def)
  then have "length (list_b (store s ! ?x)) < size_b (store s ! ?x)"
    using sz Cons.prems(2) rs by (simp add: redist_state_def)
  then have "\<exists>b'. Bucket_Insert (fst p) (snd p) (store s ! ?x) = (True, b')"
    by (rule Bucket_Insert_room)
  then obtain b' where bi: "Bucket_Insert (fst p) (snd p) (store s ! ?x) = (True, b')" ..
  define s' where "s' = s\<lparr>store := (store s)[?x := b']\<rparr>"
  have run: "InsertInternal h (fst p) (snd p) s = Some s'"
    unfolding s'_def using bi by (rule InsertInternal_direct)
  have inv': "eht_inv h s'" unfolding s'_def using inv bi by (rule insert_direct(1))
  have xs: "?x < length (store s)" using dir_okD(1)[OF ok i] .
  have dep: "depth (store s' ! y) = depth (store s ! y)" if "y < length (store s)" for y
    using Bucket_Insert_True(1)[OF bi] that by (cases "y = ?x") (simp_all add: s'_def)
  have ln: "length (list_b (store s' ! y)) \<le> Suc n"
    if "y < length (store s)" "length (list_b (store s ! y)) \<le> n" for y
    using Bucket_Insert_length[OF bi] that by (cases "y = ?x") (simp_all add: s'_def)
  have NN: "N < length (store s)" "Suc N < length (store s)" 
    using rs N by (simp_all add: redist_state_def)
  have rs': "redist_state h ts N (Suc n) s'"
    using rs inv' dep ln NN unfolding redist_state_def
    by (simp add: s'_def)
  from Cons.IH[OF rs'] Cons.prems(2,3) obtain s1 where
    "for_each (\<lambda>p. InsertInternal h (fst p) (snd p)) ys s' = Some s1"
    "redist_state h ts N (Suc n + length ys) s1"
    by auto
  then show ?case using run by auto
qed

lemma split_redistribute:
  fixes t :: "('k, 'v) ExtendibleHashTable" and key :: 'k and h :: "'k \<Rightarrow> nat"
  assumes inv: "eht_inv h t"
  defines "idx \<equiv> IndexOf h t key"
  defines "ld \<equiv> depth (store t ! (dir t ! idx))"
  shows "\<exists>s1. for_each (\<lambda>p. InsertInternal h (fst p) (snd p))
                (list_b (store t ! (dir t ! idx))) (split_bucket idx t) = Some s1 \<and>
              eht_inv h s1 \<and> contents h s1 = contents h t \<and>
              bucket_size s1 = bucket_size t \<and> num_buckets s1 = num_buckets t \<and>
              global_depth s1 = (if ld + 1 > global_depth t then global_depth t + 1 else global_depth t) \<and>
              depth (store s1 ! (dir s1 ! IndexOf h s1 key)) = ld + 1"
proof -
  let ?ts = "split_bucket idx t"
  let ?N = "length (store t)"
  let ?xs = "list_b (store t ! (dir t ! idx))"
  have ok: "dir_ok t" and bok: "buckets_ok h t" using inv by (simp_all add: eht_inv_def)
  have idx: "idx < 2 ^ global_depth t" unfolding idx_def by (rule IndexOf_less)
  have len: "length (dir t) = 2 ^ global_depth t" using ok by (rule dir_ok_length)
  have invs: "eht_inv h ?ts" using inv idx by (rule split_bucket_inv)
  have st: "store ?ts = store t @ [new_Bucket (bucket_size t) (ld + 1), new_Bucket (bucket_size t) (ld + 1)]"
    by (simp add: split_bucket_fields ld_def)
  have N: "length (store ?ts) = ?N + 2" by (simp add: st)
  have old: "length ?xs \<le> bucket_size t"
        "\<forall>p \<in> set ?xs. take_bit ld (h (fst p)) = take_bit ld idx"
    using bok idx len unfolding buckets_ok_def ld_def by simp_all
  have ref: "dir ?ts ! IndexOf h ?ts k \<in> {?N, Suc ?N}" if "take_bit ld (h k) = take_bit ld idx" for k
  proof -
    have "dir t ! IndexOf h t k = dir t ! idx" using key_slot[OF ok idx, of h k] that by (simp add: ld_def)
    then show ?thesis using split_bucket_ref[OF ok idx, of h k] by simp
  qed
  have tgt: "\<forall>p \<in> set ?xs. dir ?ts ! take_bit (global_depth ?ts) (h (fst p)) \<in> {?N, Suc ?N}"
    using old(2) ref by (simp add: IndexOf_take_bit)
  have rs0: "redist_state h ?ts ?N 0 ?ts"
    unfolding redist_state_def using invs by (simp add: st nth_append new_Bucket_def)
  have bnd: "0 + length ?xs \<le> bucket_size ?ts" using old(1) by (simp add: split_bucket_fields)
  from redistribute_direct_aux[OF N tgt rs0 bnd] obtain s1 where
    run: "for_each (\<lambda>p. InsertInternal h (fst p) (snd p)) ?xs ?ts = Some s1"
    and rs1: "redist_state h ?ts ?N (0 + length ?xs) s1"
    by blast
  have step: "\<And>p s s'. InsertInternal h (fst p) (snd p) s = Some s' \<Longrightarrow> eht_inv h s \<Longrightarrow>
        insert_post h (fst p) (snd p) s s'"
    by (rule InsertInternal_post)
  from for_each_insert_post[where f="\<lambda>p. InsertInternal h (fst p) (snd p)" and h=h, OF step run invs]
  have r1: "eht_inv h s1" "contents h s1 = contents h ?ts ++ map_of (rev ?xs)"
      "bucket_size s1 = bucket_size ?ts" "num_buckets s1 = num_buckets ?ts"
    by simp_all
  have c1: "contents h s1 = contents h t"
    unfolding r1(2) using inv idx by (rule split_then_redistribute_contents)
  have own: "take_bit ld (h key) = take_bit ld idx"
    using key_slot[OF ok idx, of h key] by (simp add: idx_def ld_def)
  have d1: "dir s1 = dir ?ts" "global_depth s1 = global_depth ?ts"
    and dep: "\<And>x. x < length (store ?ts) \<Longrightarrow> depth (store s1 ! x) = depth (store ?ts ! x)"
    using rs1 by (simp_all add: redist_state_def)
  have io: "IndexOf h s1 key = IndexOf h ?ts key" using d1(2) by (simp add: IndexOf_take_bit)
  have "depth (store s1 ! (dir s1 ! IndexOf h s1 key)) = ld + 1"
    using ref[OF own] dep[of "dir ?ts ! IndexOf h ?ts key"] N
    unfolding io d1(1) by (auto simp: st nth_append new_Bucket_def)
  then show ?thesis
    using run r1 c1 d1(2) by (simp add: split_bucket_fields ld_def)
qed

lemma contents_eq: "contents h t key = map_of (list_b (store t ! (dir t ! IndexOf h t key))) key"
  by (simp add: contents_def Find_eq IndexOf_take_bit)

lemma finite_dom_contents:
  assumes "dir_ok t"
  shows "finite {k. contents h t k \<noteq> None}"
proof -
  have len: "length (dir t) = 2 ^ global_depth t" using assms by (rule dir_ok_length)
  have "{k. contents h t k \<noteq> None} \<subseteq> (\<Union>i \<in> {..< length (dir t)}. fst ` set (list_b (store t ! (dir t ! i))))"
  proof
    fix k assume "k \<in> {k. contents h t k \<noteq> None}"
    then have "map_of (list_b (store t ! (dir t ! IndexOf h t k))) k \<noteq> None" by (simp add: contents_eq)
    then have "k \<in> fst ` set (list_b (store t ! (dir t ! IndexOf h t k)))" by (simp add: map_of_eq_None_iff)
    moreover have "IndexOf h t k < length (dir t)" using len IndexOf_less[of h t k] by simp
    ultimately show "k \<in> (\<Union>i \<in> {..< length (dir t)}. fst ` set (list_b (store t ! (dir t ! i))))" by blast
  qed
  moreover have "finite (\<Union>i \<in> {..< length (dir t)}. fst ` set (list_b (store t ! (dir t ! i))))" by simp
  ultimately show ?thesis by (rule finite_subset)
qed

lemma finite_same_hash_keys: "dir_ok t \<Longrightarrow> finite (same_hash_keys h t key)"
proof -
  assume "dir_ok t"
  then have "finite {k. contents h t k \<noteq> None}" by (rule finite_dom_contents)
  then have "finite (insert key {k. contents h t k \<noteq> None})" by (simp only: finite_insert)
  moreover have "same_hash_keys h t key \<subseteq> insert key {k. contents h t k \<noteq> None}"
    by (auto simp: same_hash_keys_def)
  ultimately show ?thesis by (rule rev_finite_subset)
qed

lemma bucket_key_props:
  assumes inv: "eht_inv h t" and i: "i < 2 ^ global_depth t"
    and k: "k \<in> fst ` set (list_b (store t ! (dir t ! i)))"
  shows "contents h t k \<noteq> None"
    and "take_bit (depth (store t ! (dir t ! i))) (h k) = take_bit (depth (store t ! (dir t ! i))) i"
proof -
  have ok: "dir_ok t" and bok: "buckets_ok h t" using inv by (simp_all add: eht_inv_def)
  have len: "length (dir t) = 2 ^ global_depth t" using ok by (rule dir_ok_length)
  show tb: "take_bit (depth (store t ! (dir t ! i))) (h k) = take_bit (depth (store t ! (dir t ! i))) i"
    using bok i len k unfolding buckets_ok_def by auto
  then have "dir t ! IndexOf h t k = dir t ! i" using key_slot[OF ok i, of h k] by simp
  then show "contents h t k \<noteq> None" using k by (simp add: contents_eq map_of_eq_None_iff)
qed

text \<open>A failed bucket insert at depth at least D: more than bucket_size keys share the hash.\<close>

lemma full_bucket_same_hash:
  fixes t :: "('k, 'v) ExtendibleHashTable"
  assumes inv: "eht_inv h t"
    and fail: "Bucket_Insert key v (store t ! (dir t ! IndexOf h t key)) = (False, b')"
    and bound: "\<forall>k. (k = key \<or> contents h t k \<noteq> None) \<longrightarrow> h k < 2 ^ D"
    and deep: "D \<le> depth (store t ! (dir t ! IndexOf h t key))"
  shows "bucket_size t < card (same_hash_keys h t key)"
proof -
  let ?i = "IndexOf h t key"
  let ?b = "store t ! (dir t ! ?i)"
  let ?K = "fst ` set (list_b ?b)"
  have ok: "dir_ok t" and bok: "buckets_ok h t" using inv by (simp_all add: eht_inv_def)
  have i: "?i < 2 ^ global_depth t" by (rule IndexOf_less)
  have len: "length (dir t) = 2 ^ global_depth t" using ok by (rule dir_ok_length)
  note bf = Bucket_Insert_False[OF fail]
  have old: "size_b ?b = bucket_size t" "distinct (map fst (list_b ?b))"
    using bok i len unfolding buckets_ok_def by simp_all
  have cK: "card ?K = bucket_size t"
    using distinct_card[OF old(2)] bf(3) old(1) by simp
  have own: "take_bit (depth ?b) (h key) = take_bit (depth ?b) ?i"
    using key_slot[OF ok i, of h key] by simp
  have small: "take_bit (depth ?b) x = x" if "x < 2 ^ D" for x :: nat
  proof -
    have "(2::nat) ^ D \<le> 2 ^ depth ?b" using deep by (intro power_increasing) simp_all
    with that have "x < 2 ^ depth ?b" by (rule less_le_trans)
    then show ?thesis by (rule take_bit_id_less)
  qed
  have "insert key ?K \<subseteq> same_hash_keys h t key"
  proof
    fix k assume "k \<in> insert key ?K"
    then show "k \<in> same_hash_keys h t key"
    proof
      assume "k = key" then show ?thesis by (simp add: same_hash_keys_def)
    next
      assume k: "k \<in> ?K"
      note p = bucket_key_props[OF inv i k]
      have "h k < 2 ^ D" "h key < 2 ^ D" using bound p(1) by simp_all
      then have "h k = h key" using p(2) own small by metis
      then show ?thesis using p(1) by (simp add: same_hash_keys_def)
    qed
  qed
  then have "card (insert key ?K) \<le> card (same_hash_keys h t key)"
    using finite_same_hash_keys[OF ok] by (simp add: card_mono)
  moreover have "card (insert key ?K) = Suc (bucket_size t)" using bf(2) cK by simp
  ultimately show ?thesis by simp
qed

lemma InsertInternal_terminates_aux:
  fixes t :: "('k, 'v) ExtendibleHashTable"
  assumes "eht_inv h t"
    and "\<forall>k. (k = key \<or> contents h t k \<noteq> None) \<longrightarrow> h k < 2 ^ D"
    and "card (same_hash_keys h t key) \<le> bucket_size t"
  shows "\<exists>t'. InsertInternal h key v t = Some t' \<and> global_depth t' \<le> max (global_depth t) D"
  using assms
proof (induction "D - depth (store t ! (dir t ! IndexOf h t key))" arbitrary: t rule: less_induct)
  case less
  let ?i = "IndexOf h t key"
  let ?b = "store t ! (dir t ! ?i)"
  obtain ok' b' where bi: "Bucket_Insert key v ?b = (ok', b')" by (cases "Bucket_Insert key v ?b")
  show ?case
  proof (cases ok')
    case True
    then have "InsertInternal h key v t = Some (t\<lparr>store := (store t)[dir t ! ?i := b']\<rparr>)"
      using bi InsertInternal_direct by fastforce
    then show ?thesis by simp
  next
    case False
    then have fail: "Bucket_Insert key v ?b = (False, b')" using bi by simp
    have ld: "depth ?b < D"
    proof (rule ccontr)
      assume "\<not> depth ?b < D"
      then have "D \<le> depth ?b" by simp
      from full_bucket_same_hash[OF less.prems(1) fail less.prems(2) this] less.prems(3)
      show False by simp
    qed
    from split_redistribute[OF less.prems(1), of key] obtain s1 where
      run: "for_each (\<lambda>p. InsertInternal h (fst p) (snd p)) (list_b ?b) (split_bucket ?i t) = Some s1"
      and s1: "eht_inv h s1" "contents h s1 = contents h t" "bucket_size s1 = bucket_size t"
        "global_depth s1 = (if depth ?b + 1 > global_depth t then global_depth t + 1 else global_depth t)"
        "depth (store s1 ! (dir s1 ! IndexOf h s1 key)) = depth ?b + 1"
      by blast
    have sh: "same_hash_keys h s1 key = same_hash_keys h t key"
      by (simp add: same_hash_keys_def s1(2))
    have m: "D - depth (store s1 ! (dir s1 ! IndexOf h s1 key)) < D - depth ?b"
      using ld s1(5) by simp
    from less.hyps[OF m s1(1)] less.prems(2,3) obtain t' where
      t': "InsertInternal h key v s1 = Some t'" "global_depth t' \<le> max (global_depth s1) D"
      unfolding sh s1(2,3) by blast
    have "InsertInternal h key v t = Some t'"
      unfolding InsertInternal_split[OF fail] run using t'(1) by simp
    moreover have "global_depth s1 \<le> max (global_depth t) D" using s1(4) ld by auto
    ultimately show ?thesis using t'(2) by auto
  qed
qed

lemma hash_bound_exists:
  assumes "dir_ok t"
  shows "\<exists>D. \<forall>k. (k = key \<or> contents h t k \<noteq> None) \<longrightarrow> h k < 2 ^ D"
proof -
  let ?S = "insert key {k. contents h t k \<noteq> None}"
  have "finite {k. contents h t k \<noteq> None}" using assms by (rule finite_dom_contents)
  then have fin: "finite (h ` ?S)" by (simp only: finite_insert finite_imageI)
  have "h k < 2 ^ Max (h ` ?S)" if "k \<in> ?S" for k
  proof -
    have "h k \<le> Max (h ` ?S)" using fin that by (intro Max_ge) auto
    also have "\<dots> < 2 ^ Max (h ` ?S)" by (rule less_exp)
    finally show ?thesis .
  qed
  then show ?thesis by blast
qed

lemma InsertInternal_terminates:
  fixes t :: "('k, 'v) ExtendibleHashTable"
  assumes inv: "eht_inv h t" and few: "card (same_hash_keys h t key) \<le> bucket_size t"
  shows "\<exists>t'. InsertInternal h key v t = Some t' \<and>
          (\<forall>D. (\<forall>k. (k = key \<or> contents h t k \<noteq> None) \<longrightarrow> h k < 2 ^ D) \<longrightarrow>
               global_depth t' \<le> max (global_depth t) D)"
proof -
  have ok: "dir_ok t" using inv by (simp add: eht_inv_def)
  from hash_bound_exists[OF ok, of key h] obtain D0 where
    "\<forall>k. (k = key \<or> contents h t k \<noteq> None) \<longrightarrow> h k < 2 ^ D0" ..
  from InsertInternal_terminates_aux[OF inv this few, of v] obtain t' where
    t': "InsertInternal h key v t = Some t'" by blast
  have "global_depth t' \<le> max (global_depth t) D"
    if "\<forall>k. (k = key \<or> contents h t k \<noteq> None) \<longrightarrow> h k < 2 ^ D" for D
    using InsertInternal_terminates_aux[OF inv that few, of v] t' by auto
  then show ?thesis using t' by blast
qed

lemma overfull_bucket_fails:
  fixes t :: "('k, 'v) ExtendibleHashTable"
  assumes inv: "eht_inv h t" and many: "bucket_size t < card (same_hash_keys h t key)"
  shows "Bucket_Insert key v (store t ! (dir t ! IndexOf h t key)) =
          (False, store t ! (dir t ! IndexOf h t key))"
proof -
  let ?i = "IndexOf h t key"
  let ?b = "store t ! (dir t ! ?i)"
  let ?K = "fst ` set (list_b ?b)"
  let ?S = "same_hash_keys h t key"
  have ok: "dir_ok t" and bok: "buckets_ok h t" using inv by (simp_all add: eht_inv_def)
  have i: "?i < 2 ^ global_depth t" by (rule IndexOf_less)
  have len: "length (dir t) = 2 ^ global_depth t" using ok by (rule dir_ok_length)
  have old: "size_b ?b = bucket_size t" "distinct (map fst (list_b ?b))"
      "length (list_b ?b) \<le> bucket_size t"
    using bok i len unfolding buckets_ok_def by simp_all
  have cK: "card ?K = length (list_b ?b)" using distinct_card[OF old(2)] by simp
  have sub: "?S - {key} \<subseteq> ?K"
  proof
    fix k assume "k \<in> ?S - {key}"
    then have k: "contents h t k \<noteq> None" "h k = h key" by (auto simp: same_hash_keys_def)
    then have "IndexOf h t k = ?i" by (simp add: IndexOf_take_bit)
    then show "k \<in> ?K" using k(1) by (simp add: contents_eq map_of_eq_None_iff)
  qed
  have notin: "key \<notin> ?K"
  proof
    assume "key \<in> ?K"
    then have "?S \<subseteq> ?K" using sub by auto
    then have "card ?S \<le> card ?K" by (simp add: card_mono)
    then show False using many cK old(3) by simp
  qed
  have "?S \<subseteq> insert key ?K" using sub by auto
  then have "card ?S \<le> card (insert key ?K)" by (simp add: card_mono)
  then have "length (list_b ?b) = size_b ?b" using many cK old(1,3) notin by simp
  then show ?thesis using notin Bucket_Insert_cases[of key v ?b] by auto
qed

lemma InsertInternal_returns_ok:
  fixes t :: "('k, 'v) ExtendibleHashTable"
  assumes "InsertInternal h key v t = Some t'"
  shows "returns_ok h key v t t'"
proof (rule InsertInternal.raw_induct[where P = returns_ok, OF _ assms])
  fix ins :: "('k \<Rightarrow> nat) \<Rightarrow> 'k \<Rightarrow> 'v \<Rightarrow> ('k, 'v) ExtendibleHashTable \<Rightarrow> ('k, 'v) ExtendibleHashTable option"
  fix h key v t t'
  assume IH: "\<And>h key v t t'. ins h key v t = Some t' \<Longrightarrow> returns_ok h key v t t'"
    and run: "(let original_dir_index = IndexOf h t key;
          original_bucket = dir t ! original_dir_index;
          res = Bucket_Insert key v (store t ! original_bucket)
      in if fst res then Some (t\<lparr>store := (store t)[original_bucket := snd res]\<rparr>)
         else
           Option.bind
             (for_each (\<lambda>p. ins h (fst p) (snd p))
                (GetItems (store t ! original_bucket)) (split_bucket original_dir_index t))
             (ins h key v)) = Some t'"
  have IH1: "\<And>h key v t t'. ins h key v t = Some t' \<Longrightarrow> eht_inv h t \<longrightarrow> insert_post h key v t t'"
    using IH unfolding returns_ok_def by blast
  have post: "eht_inv h t \<longrightarrow> insert_post h key v t t'"
    using IH1 run by (rule InsertInternal_step)
  have few: "card (same_hash_keys h t key) \<le> bucket_size t" if inv: "eht_inv h t"
  proof (rule ccontr)
    assume "\<not> card (same_hash_keys h t key) \<le> bucket_size t"
    then have many: "bucket_size t < card (same_hash_keys h t key)" by simp
    let ?i = "IndexOf h t key"
    let ?r = "dir t ! ?i"
    let ?ts = "split_bucket ?i t"
    have i: "?i < 2 ^ global_depth t" by (rule IndexOf_less)
    note fail = overfull_bucket_fails[OF inv many, of v]
    from run fail obtain s1 where
      red: "for_each (\<lambda>p. ins h (fst p) (snd p)) (list_b (store t ! ?r)) ?ts = Some s1"
      and fin: "ins h key v s1 = Some t'"
      by (auto simp: Let_def GetItems_def bind_eq_Some_conv)
    have invs: "eht_inv h ?ts" using inv i by (rule split_bucket_inv)
    have step: "\<And>p s s'. ins h (fst p) (snd p) s = Some s' \<Longrightarrow> eht_inv h s \<Longrightarrow>
        insert_post h (fst p) (snd p) s s'"
      using IH1 by blast
    from for_each_insert_post[where f="\<lambda>p. ins h (fst p) (snd p)" and h=h, OF step red invs]
    have r1: "eht_inv h s1" "contents h s1 = contents h ?ts ++ map_of (rev (list_b (store t ! ?r)))"
      "bucket_size s1 = bucket_size ?ts"
      by simp_all
    have c1: "contents h s1 = contents h t"
      unfolding r1(2) using inv i by (rule split_then_redistribute_contents)
    have "same_hash_keys h s1 key = same_hash_keys h t key"
      by (simp add: same_hash_keys_def c1)
    moreover have "card (same_hash_keys h s1 key) \<le> bucket_size s1"
      using IH[OF fin] r1(1) by (simp add: returns_ok_def)
    ultimately show False using many r1(3) by (simp add: split_bucket_fields)
  qed
  show "returns_ok h key v t t'" unfolding returns_ok_def using post few by blast
qed

lemma InsertInternal_diverges:
  fixes t :: "('k, 'v) ExtendibleHashTable"
  assumes inv: "eht_inv h t" and many: "bucket_size t < card (same_hash_keys h t key)"
  shows "InsertInternal h key v t = None"
proof (cases "InsertInternal h key v t")
  case None
  then show ?thesis .
next
  case (Some t')
  from InsertInternal_returns_ok[OF Some] inv many show ?thesis by (simp add: returns_ok_def)
qed

lemma new_table_inv: "eht_inv h (new_ExtendibleHashTable bsize)"
  by (simp add: eht_inv_def dir_ok_def buckets_ok_def new_ExtendibleHashTable_def new_Bucket_def)

lemma new_table_contents: "contents h (new_ExtendibleHashTable bsize) = Map.empty"
  by (simp add: contents_def fun_eq_iff Find_eq new_ExtendibleHashTable_def new_Bucket_def)

lemma eht_apply_inv:
  assumes "eht_apply h x t = Some t'" "eht_inv h t"
  shows "eht_inv h t'" "bucket_size t' = bucket_size t" "num_buckets t' = num_buckets t"
    "contents h t' = (case x of Op_Insert key v \<Rightarrow> (contents h t)(key \<mapsto> v)
        | Op_Remove key \<Rightarrow> (contents h t)(key := None) | Op_Find key \<Rightarrow> contents h t)"
proof -
  have "eht_inv h t' \<and> bucket_size t' = bucket_size t \<and> num_buckets t' = num_buckets t \<and>
    contents h t' = (case x of Op_Insert key v \<Rightarrow> (contents h t)(key \<mapsto> v)
        | Op_Remove key \<Rightarrow> (contents h t)(key := None) | Op_Find key \<Rightarrow> contents h t)"
  proof (cases x)
    case (Op_Insert key v)
    then have "InsertInternal h key v t = Some t'" using assms(1) by (simp add: Insert_def)
    from InsertInternal_post[OF this assms(2)] show ?thesis
      by (simp add: insert_post_def Op_Insert)
  next
    case (Op_Remove key)
    then have "Remove_eht h key t = (fst (Remove_eht h key t), t')" using assms(1) by auto
    from Remove_eht_correct[OF assms(2) this] show ?thesis by (simp add: Op_Remove)
  next
    case (Op_Find key)
    then show ?thesis using assms by simp
  qed
  then show "eht_inv h t'" "bucket_size t' = bucket_size t" "num_buckets t' = num_buckets t"
    "contents h t' = (case x of Op_Insert key v \<Rightarrow> (contents h t)(key \<mapsto> v)
        | Op_Remove key \<Rightarrow> (contents h t)(key := None) | Op_Find key \<Rightarrow> contents h t)"
    by simp_all
qed

lemma eht_run_inv:
  "eht_run h xs t = Some t' \<Longrightarrow> eht_inv h t \<Longrightarrow>
   eht_inv h t' \<and> bucket_size t' = bucket_size t \<and> num_buckets t' = num_buckets t"
proof (induction xs arbitrary: t)
  case Nil
  then show ?case by simp
next
  case (Cons x xs)
  from Cons.prems(1) obtain t1 where t1: "eht_apply h x t = Some t1" and r: "eht_run h xs t1 = Some t'"
    by (auto simp: bind_eq_Some_conv)
  from eht_apply_inv(1-3)[OF t1 Cons.prems(2)] Cons.IH[OF r] show ?case by simp
qed

lemma eht_run_other_keys:
  "eht_run h xs t = Some t' \<Longrightarrow> eht_inv h t \<Longrightarrow> \<forall>x \<in> set xs. op_key x \<noteq> key \<Longrightarrow>
   contents h t' key = contents h t key"
proof (induction xs arbitrary: t)
  case Nil
  then show ?case by simp
next
  case (Cons x xs)
  from Cons.prems(1) obtain t1 where t1: "eht_apply h x t = Some t1" and r: "eht_run h xs t1 = Some t'"
    by (auto simp: bind_eq_Some_conv)
  have "contents h t1 key = contents h t key"
    using eht_apply_inv(4)[OF t1 Cons.prems(2)] Cons.prems(3) by (cases x) auto
  moreover have "contents h t' key = contents h t1 key"
    using Cons.IH[OF r eht_apply_inv(1)[OF t1 Cons.prems(2)]] Cons.prems(3) by simp
  ultimately show ?case by simp
qed

lemma reachable_inv:
  "eht_run h xs (new_ExtendibleHashTable bsize) = Some t \<Longrightarrow> eht_inv h t \<and> bucket_size t = bsize \<and> num_buckets t = 1"
  using eht_run_inv[OF _ new_table_inv, of h xs bsize t] by (simp add: new_ExtendibleHashTable_def)



lemma table_8_run:
  "eht_run (\<lambda>x. x) [Op_Insert 0 10, Op_Insert 2 12, Op_Insert 1 11, Op_Remove 2, Op_Insert 4 14,
      Op_Insert 8 18] (new_ExtendibleHashTable 2) = Some table_8"
  unfolding table_8_def by code_simp









lemma finite_inserted_keys: "finite (inserted_keys xs)"
  by (induction xs rule: inserted_keys.induct) simp_all

lemma eht_run_workload:
  fixes t :: "('k, 'v) ExtendibleHashTable"
  assumes fin: "finite K" and few: "\<forall>x. card {k \<in> K. h k = x} \<le> bsize"
    and bound: "\<forall>k \<in> K. h k < 2 ^ D"
  shows "inserted_keys xs \<subseteq> K \<Longrightarrow> eht_inv h t \<Longrightarrow> bucket_size t = bsize \<Longrightarrow>
         {k. contents h t k \<noteq> None} \<subseteq> K \<Longrightarrow> global_depth t \<le> D \<Longrightarrow>
         \<exists>t'. eht_run h xs t = Some t' \<and> global_depth t' \<le> D"
proof (induction xs arbitrary: t)
  case Nil
  then show ?case by simp
next
  case (Cons x xs)
  have "\<exists>t1. eht_apply h x t = Some t1 \<and> eht_inv h t1 \<and> bucket_size t1 = bsize \<and>
          {k. contents h t1 k \<noteq> None} \<subseteq> K \<and> global_depth t1 \<le> D \<and> inserted_keys xs \<subseteq> K"
  proof (cases x)
    case (Op_Insert key v)
    then have key: "key \<in> K" and rest: "inserted_keys xs \<subseteq> K" using Cons.prems(1) by simp_all
    have "same_hash_keys h t key \<subseteq> {k \<in> K. h k = h key}"
      using key Cons.prems(4) by (auto simp: same_hash_keys_def)
    then have "card (same_hash_keys h t key) \<le> card {k \<in> K. h k = h key}"
      using fin by (intro card_mono) simp_all
    then have c: "card (same_hash_keys h t key) \<le> bucket_size t"
      using few Cons.prems(3) by (meson le_trans)
    have b: "\<forall>k. (k = key \<or> contents h t k \<noteq> None) \<longrightarrow> h k < 2 ^ D"
      using key bound Cons.prems(4) by auto
    from InsertInternal_terminates[OF Cons.prems(2) c, of v] b obtain t1 where
      t1: "InsertInternal h key v t = Some t1" "global_depth t1 \<le> max (global_depth t) D"
      by blast
    from InsertInternal_post[OF t1(1) Cons.prems(2)]
    have p: "eht_inv h t1" "contents h t1 = (contents h t)(key \<mapsto> v)" "bucket_size t1 = bucket_size t"
      by (simp_all add: insert_post_def)
    have "{k. contents h t1 k \<noteq> None} \<subseteq> K" unfolding p(2) using key Cons.prems(4) by auto
    then show ?thesis
      using t1 p(1,3) Cons.prems(3,5) rest by (simp add: Op_Insert Insert_def)
  next
    case (Op_Remove key)
    obtain res t1 where rm: "Remove_eht h key t = (res, t1)" by (cases "Remove_eht h key t")
    note c = Remove_eht_correct[OF Cons.prems(2) rm]
    have "{k. contents h t1 k \<noteq> None} \<subseteq> K" unfolding c(2) using Cons.prems(4) by auto
    then show ?thesis using rm c(1,4,6) Cons.prems(1,3,5) by (simp add: Op_Remove)
  next
    case (Op_Find key)
    then show ?thesis using Cons.prems by simp
  qed
  then obtain t1 where t1: "eht_apply h x t = Some t1" "eht_inv h t1" "bucket_size t1 = bsize"
          "{k. contents h t1 k \<noteq> None} \<subseteq> K" "global_depth t1 \<le> D" "inserted_keys xs \<subseteq> K"
    by blast
  from Cons.IH[OF t1(6,2,3,4,5)] t1(1) show ?case by simp
qed

lemma bound_exists: "finite K \<Longrightarrow> \<exists>D. \<forall>k \<in> K. (h k :: nat) < 2 ^ D"
proof -
  assume fin: "finite K"
  have "h k < 2 ^ Max (h ` K)" if "k \<in> K" for k
  proof -
    have "h k \<le> Max (h ` K)" using fin that by (intro Max_ge) auto
    also have "\<dots> < 2 ^ Max (h ` K)" by (rule less_exp)
    finally show ?thesis .
  qed
  then show ?thesis by blast
qed

lemma same_hash_keys_id: "same_hash_keys (\<lambda>x. x) t key = {key}"
  by (auto simp: same_hash_keys_def)

subsection \<open>Insertion with a bounded directory\<close>

lemma and_then_simps [simp]:
  "and_then (Some (Inserted s)) f = f s" "and_then (Some BadAlloc) f = Some BadAlloc"
  "and_then None f = None"
  by (simp_all add: and_then_def)

lemma InsertInternal_alloc_direct:
  "Bucket_Insert key v (store t ! (dir t ! IndexOf h t key)) = (True, b') \<Longrightarrow>
   InsertInternal_alloc m h key v t = Some (Inserted (t\<lparr>store := (store t)[dir t ! IndexOf h t key := b']\<rparr>))"
  by (subst InsertInternal_alloc.simps) (simp add: Let_def)

lemma InsertInternal_alloc_bad:
  "Bucket_Insert key v (store t ! (dir t ! IndexOf h t key)) = (False, b') \<Longrightarrow>
   depth (store t ! (dir t ! IndexOf h t key)) + 1 > global_depth t \<Longrightarrow>
   m < length (dir t) + length (dir t) \<Longrightarrow>
   InsertInternal_alloc m h key v t = Some BadAlloc"
  by (subst InsertInternal_alloc.simps) (simp add: Let_def GetDepth_def)

lemma InsertInternal_alloc_split:
  "Bucket_Insert key v (store t ! (dir t ! IndexOf h t key)) = (False, b') \<Longrightarrow>
   \<not> (depth (store t ! (dir t ! IndexOf h t key)) + 1 > global_depth t \<and>
      m < length (dir t) + length (dir t)) \<Longrightarrow>
   InsertInternal_alloc m h key v t =
     and_then
       (for_each_alloc (\<lambda>p. InsertInternal_alloc m h (fst p) (snd p))
          (list_b (store t ! (dir t ! IndexOf h t key))) (split_bucket (IndexOf h t key) t))
       (InsertInternal_alloc m h key v)"
  by (subst InsertInternal_alloc.simps) (auto simp add: Let_def GetItems_def GetDepth_def)

lemma redistribute_alloc_aux:
  fixes s :: "('k, 'v) ExtendibleHashTable"
  assumes N: "length (store ts) = N + 2"
    and tgt: "\<forall>p \<in> set ys. dir ts ! take_bit (global_depth ts) (h (fst p)) \<in> {N, Suc N}"
  shows "redist_state h ts N n s \<Longrightarrow> n + length ys \<le> bucket_size ts \<Longrightarrow>
         \<exists>s1. for_each (\<lambda>p. InsertInternal h (fst p) (snd p)) ys s = Some s1 \<and>
              for_each_alloc (\<lambda>p. InsertInternal_alloc m h (fst p) (snd p)) ys s = Some (Inserted s1)"
  using tgt
proof (induction ys arbitrary: s n)
  case Nil
  then show ?case by simp
next
  case (Cons p ys)
  let ?x = "dir s ! IndexOf h s (fst p)"
  have rs: "redist_state h ts N n s" by fact
  then have inv: "eht_inv h s" by (simp add: redist_state_def)
  then have ok: "dir_ok s" and bok: "buckets_ok h s" by (simp_all add: eht_inv_def)
  have x: "?x \<in> {N, Suc N}"
    using Cons.prems(3) rs by (simp add: redist_state_def IndexOf_take_bit)
  have i: "IndexOf h s (fst p) < 2 ^ global_depth s" by (rule IndexOf_less)
  have len: "length (dir s) = 2 ^ global_depth s" using ok by (rule dir_ok_length)
  have sz: "size_b (store s ! ?x) = bucket_size s"
    using bok i len unfolding buckets_ok_def by simp
  have "length (list_b (store s ! ?x)) \<le> n" using x rs by (auto simp: redist_state_def)
  then have "length (list_b (store s ! ?x)) < size_b (store s ! ?x)"
    using sz Cons.prems(2) rs by (simp add: redist_state_def)
  then have "\<exists>b'. Bucket_Insert (fst p) (snd p) (store s ! ?x) = (True, b')"
    by (rule Bucket_Insert_room)
  then obtain b' where bi: "Bucket_Insert (fst p) (snd p) (store s ! ?x) = (True, b')" ..
  define s' where "s' = s\<lparr>store := (store s)[?x := b']\<rparr>"
  have run: "InsertInternal h (fst p) (snd p) s = Some s'"
    unfolding s'_def using bi by (rule InsertInternal_direct)
  have run_alloc: "InsertInternal_alloc m h (fst p) (snd p) s = Some (Inserted s')"
    unfolding s'_def using bi by (rule InsertInternal_alloc_direct)
  have inv': "eht_inv h s'" unfolding s'_def using inv bi by (rule insert_direct(1))
  have xs: "?x < length (store s)" using dir_okD(1)[OF ok i] .
  have dep: "depth (store s' ! y) = depth (store s ! y)" if "y < length (store s)" for y
    using Bucket_Insert_True(1)[OF bi] that by (cases "y = ?x") (simp_all add: s'_def)
  have ln: "length (list_b (store s' ! y)) \<le> Suc n"
    if "y < length (store s)" "length (list_b (store s ! y)) \<le> n" for y
    using Bucket_Insert_length[OF bi] that by (cases "y = ?x") (simp_all add: s'_def)
  have NN: "N < length (store s)" "Suc N < length (store s)"
    using rs N by (simp_all add: redist_state_def)
  have rs': "redist_state h ts N (Suc n) s'"
    using rs inv' dep ln NN unfolding redist_state_def
    by (simp add: s'_def)
  from Cons.IH[OF rs'] Cons.prems(2,3) obtain s1 where
    "for_each (\<lambda>p. InsertInternal h (fst p) (snd p)) ys s' = Some s1"
    "for_each_alloc (\<lambda>p. InsertInternal_alloc m h (fst p) (snd p)) ys s' = Some (Inserted s1)"
    by auto
  then show ?case using run run_alloc by auto
qed

lemma split_redistribute_alloc:
  fixes t :: "('k, 'v) ExtendibleHashTable" and key :: 'k and h :: "'k \<Rightarrow> nat"
  assumes inv: "eht_inv h t"
  defines "idx \<equiv> IndexOf h t key"
  assumes run: "for_each (\<lambda>p. InsertInternal h (fst p) (snd p))
                (list_b (store t ! (dir t ! idx))) (split_bucket idx t) = Some s1"
  shows "for_each_alloc (\<lambda>p. InsertInternal_alloc m h (fst p) (snd p))
                (list_b (store t ! (dir t ! idx))) (split_bucket idx t) = Some (Inserted s1)"
proof -
  define ld where "ld = depth (store t ! (dir t ! idx))"
  let ?ts = "split_bucket idx t"
  let ?N = "length (store t)"
  let ?xs = "list_b (store t ! (dir t ! idx))"
  have ok: "dir_ok t" and bok: "buckets_ok h t" using inv by (simp_all add: eht_inv_def)
  have idx: "idx < 2 ^ global_depth t" unfolding idx_def by (rule IndexOf_less)
  have len: "length (dir t) = 2 ^ global_depth t" using ok by (rule dir_ok_length)
  have invs: "eht_inv h ?ts" using inv idx by (rule split_bucket_inv)
  have st: "store ?ts = store t @ [new_Bucket (bucket_size t) (ld + 1), new_Bucket (bucket_size t) (ld + 1)]"
    by (simp add: split_bucket_fields ld_def)
  have N: "length (store ?ts) = ?N + 2" by (simp add: st)
  have old: "length ?xs \<le> bucket_size t"
        "\<forall>p \<in> set ?xs. take_bit ld (h (fst p)) = take_bit ld idx"
    using bok idx len unfolding buckets_ok_def ld_def by simp_all
  have ref: "dir ?ts ! IndexOf h ?ts k \<in> {?N, Suc ?N}" if "take_bit ld (h k) = take_bit ld idx" for k
  proof -
    have "dir t ! IndexOf h t k = dir t ! idx" using key_slot[OF ok idx, of h k] that by (simp add: ld_def)
    then show ?thesis using split_bucket_ref[OF ok idx, of h k] by simp
  qed
  have tgt: "\<forall>p \<in> set ?xs. dir ?ts ! take_bit (global_depth ?ts) (h (fst p)) \<in> {?N, Suc ?N}"
    using old(2) ref by (simp add: IndexOf_take_bit)
  have rs0: "redist_state h ?ts ?N 0 ?ts"
    unfolding redist_state_def using invs by (simp add: st nth_append new_Bucket_def)
  have bnd: "0 + length ?xs \<le> bucket_size ?ts" using old(1) by (simp add: split_bucket_fields)
  from redistribute_alloc_aux[OF N tgt rs0 bnd, of m] run show ?thesis by auto
qed

text \<open>Every call of the bounded insert ends, and it agrees with the unbounded one.\<close>

lemma InsertInternal_alloc_total:
  fixes t :: "('k, 'v) ExtendibleHashTable"
  assumes "eht_inv h t" and "length (dir t) \<le> m"
  shows "(\<exists>t'. InsertInternal_alloc m h key v t = Some (Inserted t') \<and>
               InsertInternal h key v t = Some t' \<and> length (dir t') \<le> m) \<or>
         (InsertInternal_alloc m h key v t = Some BadAlloc \<and>
          (\<forall>t'. InsertInternal h key v t = Some t' \<longrightarrow> m < length (dir t')))"
  using assms
proof (induction "m - depth (store t ! (dir t ! IndexOf h t key))" arbitrary: t rule: less_induct)
  case less
  let ?i = "IndexOf h t key"
  let ?b = "store t ! (dir t ! ?i)"
  have ok: "dir_ok t" using less.prems(1) by (simp add: eht_inv_def)
  have i: "?i < 2 ^ global_depth t" by (rule IndexOf_less)
  have len: "length (dir t) = 2 ^ global_depth t" using ok by (rule dir_ok_length)
  have dg: "depth ?b \<le> global_depth t" using dir_okD(2)[OF ok i] .
  have "global_depth t < 2 ^ global_depth t" by (rule less_exp)
  then have dm: "depth ?b < m" using dg len less.prems(2) by linarith
  obtain ok' b' where bi: "Bucket_Insert key v ?b = (ok', b')" by (cases "Bucket_Insert key v ?b")
  show ?case
  proof (cases ok')
    case True
    then have bi': "Bucket_Insert key v ?b = (True, b')" using bi by simp
    have "InsertInternal h key v t = Some (t\<lparr>store := (store t)[dir t ! ?i := b']\<rparr>)"
      using bi' by (rule InsertInternal_direct)
    moreover have "InsertInternal_alloc m h key v t = Some (Inserted (t\<lparr>store := (store t)[dir t ! ?i := b']\<rparr>))"
      using bi' by (rule InsertInternal_alloc_direct)
    ultimately show ?thesis using less.prems(2) by simp
  next
    case False
    then have fail: "Bucket_Insert key v ?b = (False, b')" using bi by simp
    from split_redistribute[OF less.prems(1), of key] obtain s1 where
      run: "for_each (\<lambda>p. InsertInternal h (fst p) (snd p)) (list_b ?b) (split_bucket ?i t) = Some s1"
      and s1: "eht_inv h s1"
        "global_depth s1 = (if depth ?b + 1 > global_depth t then global_depth t + 1 else global_depth t)"
        "depth (store s1 ! (dir s1 ! IndexOf h s1 key)) = depth ?b + 1"
      by blast
    have ex: "InsertInternal h key v t = InsertInternal h key v s1"
      unfolding InsertInternal_split[OF fail] run by simp
    have len1: "length (dir s1) = 2 ^ global_depth s1"
      using s1(1) by (simp add: eht_inv_def dir_ok_length)
    show ?thesis
    proof (cases "depth ?b + 1 > global_depth t \<and> m < length (dir t) + length (dir t)")
      case True
      then have bad: "InsertInternal_alloc m h key v t = Some BadAlloc"
        using InsertInternal_alloc_bad[OF fail] by blast
      have "m < length (dir t')" if "InsertInternal h key v t = Some t'" for t'
      proof -
        from that have r: "InsertInternal h key v s1 = Some t'" using ex by simp
        from InsertInternal_post[OF r s1(1)]
        have p: "eht_inv h t'" "global_depth s1 \<le> global_depth t'" by (simp_all add: insert_post_def)
        have "length (dir t') = 2 ^ global_depth t'" using p(1) by (simp add: eht_inv_def dir_ok_length)
        moreover have "(2::nat) ^ global_depth s1 \<le> 2 ^ global_depth t'"
          using p(2) by (rule power_increasing) simp
        moreover have "(2::nat) ^ global_depth s1 = length (dir t) + length (dir t)"
          using True s1(2) len by simp
        ultimately show ?thesis using True by linarith
      qed
      then show ?thesis using bad by blast
    next
      case nb: False
      have al: "InsertInternal_alloc m h key v t = InsertInternal_alloc m h key v s1"
        unfolding InsertInternal_alloc_split[OF fail nb]
          split_redistribute_alloc[OF less.prems(1) run] by simp
      have fit: "length (dir s1) \<le> m"
        using nb s1(2) len len1 less.prems(2) by (auto split: if_splits)
      have meas: "m - depth (store s1 ! (dir s1 ! IndexOf h s1 key)) < m - depth ?b"
        using dm s1(3) by simp
      from less.hyps[OF meas s1(1) fit] show ?thesis unfolding ex al .
    qed
  qed
qed

lemma InsertInternal_alloc_overfull:
  fixes t :: "('k, 'v) ExtendibleHashTable"
  assumes inv: "eht_inv h t" and fit: "length (dir t) \<le> m"
    and many: "bucket_size t < card (same_hash_keys h t key)"
  shows "InsertInternal_alloc m h key v t = Some BadAlloc"
  using InsertInternal_alloc_total[OF inv fit, of key v] InsertInternal_diverges[OF inv many, of v]
  by auto

lemma InsertInternal_alloc_few:
  fixes t :: "('k, 'v) ExtendibleHashTable"
  assumes inv: "eht_inv h t" and fit: "length (dir t) \<le> m"
    and bound: "\<forall>k. (k = key \<or> contents h t k \<noteq> None) \<longrightarrow> h k < 2 ^ D" and D: "2 ^ D \<le> m"
    and few: "card (same_hash_keys h t key) \<le> bucket_size t"
  shows "\<exists>t'. InsertInternal_alloc m h key v t = Some (Inserted t') \<and>
              InsertInternal h key v t = Some t' \<and> global_depth t' \<le> max (global_depth t) D"
proof -
  from InsertInternal_terminates_aux[OF inv bound few, of v] obtain t' where
    t': "InsertInternal h key v t = Some t'" "global_depth t' \<le> max (global_depth t) D" by blast
  have len: "length (dir t) = 2 ^ global_depth t" using inv by (simp add: eht_inv_def dir_ok_length)
  from InsertInternal_post[OF t'(1) inv] have "eht_inv h t'" by (simp add: insert_post_def)
  then have len': "length (dir t') = 2 ^ global_depth t'" by (simp add: eht_inv_def dir_ok_length)
  have "(2::nat) ^ global_depth t' \<le> 2 ^ max (global_depth t) D"
    using t'(2) by (rule power_increasing) simp
  also have "\<dots> = max (2 ^ global_depth t) (2 ^ D)" by (simp add: max_def)
  also have "\<dots> \<le> m" using fit len D by simp
  finally have "length (dir t') \<le> m" using len' by simp
  with InsertInternal_alloc_total[OF inv fit, of key v] t' show ?thesis by auto
qed

lemma InsertInternal_alloc_sound:
  fixes t :: "('k, 'v) ExtendibleHashTable"
  assumes inv: "eht_inv h t" and fit: "length (dir t) \<le> m"
    and run: "InsertInternal_alloc m h key v t = Some (Inserted t')"
  shows "InsertInternal h key v t = Some t'" "length (dir t') \<le> m"
  using InsertInternal_alloc_total[OF inv fit, of key v] run by auto

lemma eht_apply_alloc_sound:
  fixes t :: "('k, 'v) ExtendibleHashTable"
  assumes inv: "eht_inv h t" and fit: "length (dir t) \<le> m"
    and run: "eht_apply_alloc m h x t = Some (Inserted t')"
  shows "eht_apply h x t = Some t'" "length (dir t') \<le> m"
proof -
  have "eht_apply h x t = Some t' \<and> length (dir t') \<le> m"
  proof (cases x)
    case (Op_Insert key v)
    then show ?thesis
      using InsertInternal_alloc_sound[OF inv fit, of key v t'] run by (simp add: Insert_alloc_def Insert_def)
  next
    case (Op_Remove key)
    have "dir (snd (Remove_eht h key t)) = dir t" by (simp add: Remove_eht_def Let_def)
    then show ?thesis using run fit Op_Remove by auto
  next
    case (Op_Find key)
    then show ?thesis using run fit by simp
  qed
  then show "eht_apply h x t = Some t'" "length (dir t') \<le> m" by simp_all
qed

lemma and_then_Inserted:
  "and_then r f = Some (Inserted t') \<Longrightarrow> \<exists>s. r = Some (Inserted s) \<and> f s = Some (Inserted t')"
  by (cases r) (auto simp: and_then_def split: insert_result.splits)

lemma eht_run_alloc_sound:
  fixes t :: "('k, 'v) ExtendibleHashTable"
  shows "eht_inv h t \<Longrightarrow> length (dir t) \<le> m \<Longrightarrow> eht_run_alloc m h xs t = Some (Inserted t') \<Longrightarrow>
         eht_run h xs t = Some t' \<and> length (dir t') \<le> m"
proof (induction xs arbitrary: t)
  case Nil
  then show ?case by simp
next
  case (Cons x xs)
  from Cons.prems(3) obtain t1 where t1: "eht_apply_alloc m h x t = Some (Inserted t1)"
    and r: "eht_run_alloc m h xs t1 = Some (Inserted t')"
    using and_then_Inserted by fastforce
  note a = eht_apply_alloc_sound[OF Cons.prems(1,2) t1]
  have "eht_inv h t1" using eht_apply_inv(1)[OF a(1) Cons.prems(1)] .
  from Cons.IH[OF this a(2) r] a(1) show ?case by simp
qed

lemma eht_run_alloc_workload:
  fixes t :: "('k, 'v) ExtendibleHashTable"
  assumes fin: "finite K" and few: "\<forall>x. card {k \<in> K. h k = x} \<le> bsize"
    and bound: "\<forall>k \<in> K. h k < 2 ^ D" and D: "2 ^ D \<le> m"
  shows "inserted_keys xs \<subseteq> K \<Longrightarrow> eht_inv h t \<Longrightarrow> bucket_size t = bsize \<Longrightarrow>
         {k. contents h t k \<noteq> None} \<subseteq> K \<Longrightarrow> global_depth t \<le> D \<Longrightarrow>
         \<exists>t'. eht_run_alloc m h xs t = Some (Inserted t') \<and> global_depth t' \<le> D"
proof (induction xs arbitrary: t)
  case Nil
  then show ?case by simp
next
  case (Cons x xs)
  have len: "length (dir t) = 2 ^ global_depth t"
    using Cons.prems(2) by (simp add: eht_inv_def dir_ok_length)
  have p2: "(2::nat) ^ global_depth t \<le> 2 ^ D" using Cons.prems(5) by (rule power_increasing) simp
  have fit: "length (dir t) \<le> m" unfolding len using p2 D by (rule le_trans)
  have "\<exists>t1. eht_apply_alloc m h x t = Some (Inserted t1) \<and> eht_inv h t1 \<and> bucket_size t1 = bsize \<and>
          {k. contents h t1 k \<noteq> None} \<subseteq> K \<and> global_depth t1 \<le> D \<and> inserted_keys xs \<subseteq> K"
  proof (cases x)
    case (Op_Insert key v)
    then have key: "key \<in> K" and rest: "inserted_keys xs \<subseteq> K" using Cons.prems(1) by simp_all
    have "same_hash_keys h t key \<subseteq> {k \<in> K. h k = h key}"
      using key Cons.prems(4) by (auto simp: same_hash_keys_def)
    then have "card (same_hash_keys h t key) \<le> card {k \<in> K. h k = h key}"
      using fin by (intro card_mono) simp_all
    then have c: "card (same_hash_keys h t key) \<le> bucket_size t"
      using few Cons.prems(3) by (meson le_trans)
    have b: "\<forall>k. (k = key \<or> contents h t k \<noteq> None) \<longrightarrow> h k < 2 ^ D"
      using key bound Cons.prems(4) by auto
    from InsertInternal_alloc_few[OF Cons.prems(2) fit b D c, of v] obtain t1 where
      t1: "InsertInternal_alloc m h key v t = Some (Inserted t1)" "InsertInternal h key v t = Some t1"
        "global_depth t1 \<le> max (global_depth t) D"
      by blast
    from InsertInternal_post[OF t1(2) Cons.prems(2)]
    have p: "eht_inv h t1" "contents h t1 = (contents h t)(key \<mapsto> v)" "bucket_size t1 = bucket_size t"
      by (simp_all add: insert_post_def)
    have "{k. contents h t1 k \<noteq> None} \<subseteq> K" unfolding p(2) using key Cons.prems(4) by auto
    then show ?thesis
      using t1 p(1,3) Cons.prems(3,5) rest by (simp add: Op_Insert Insert_alloc_def)
  next
    case (Op_Remove key)
    obtain res t1 where rm: "Remove_eht h key t = (res, t1)" by (cases "Remove_eht h key t")
    note c = Remove_eht_correct[OF Cons.prems(2) rm]
    have "{k. contents h t1 k \<noteq> None} \<subseteq> K" unfolding c(2) using Cons.prems(4) by auto
    then show ?thesis using rm c(1,4,6) Cons.prems(1,3,5) by (simp add: Op_Remove)
  next
    case (Op_Find key)
    then show ?thesis using Cons.prems by simp
  qed
  then obtain t1 where t1: "eht_apply_alloc m h x t = Some (Inserted t1)" "eht_inv h t1" "bucket_size t1 = bsize"
          "{k. contents h t1 k \<noteq> None} \<subseteq> K" "global_depth t1 \<le> D" "inserted_keys xs \<subseteq> K"
    by blast
  from Cons.IH[OF t1(6,2,3,4,5)] t1(1) show ?case by simp
qed

lemma reachable_alloc:
  fixes t :: "('k, 'v) ExtendibleHashTable"
  assumes "1 \<le> m" and "eht_run_alloc m h xs (new_ExtendibleHashTable bsize) = Some (Inserted t)"
  shows "eht_run h xs (new_ExtendibleHashTable bsize) = Some t" "length (dir t) \<le> m"
    "eht_inv h t" "bucket_size t = bsize"
proof -
  have "length (dir (new_ExtendibleHashTable bsize :: ('k, 'v) ExtendibleHashTable)) \<le> m"
    using assms(1) by (simp add: new_ExtendibleHashTable_def)
  from eht_run_alloc_sound[OF new_table_inv this assms(2)]
  show r: "eht_run h xs (new_ExtendibleHashTable bsize) = Some t" and "length (dir t) \<le> m"
    by simp_all
  from reachable_inv[OF r] show "eht_inv h t" "bucket_size t = bsize" by simp_all
qed

text \<open>Two stored keys whose hashes agree on the low \<open>global_depth\<close> bits are in one bucket.\<close>

lemma colliding_keys_need_room:
  fixes t :: "('k, 'v) ExtendibleHashTable"
  assumes inv: "eht_inv h t" and ne: "k1 \<noteq> k2"
    and c1: "contents h t k1 \<noteq> None" and c2: "contents h t k2 \<noteq> None"
    and low: "take_bit (global_depth t) (h k1) = take_bit (global_depth t) (h k2)"
  shows "2 \<le> bucket_size t"
proof -
  let ?i = "IndexOf h t k1"
  let ?xs = "list_b (store t ! (dir t ! ?i))"
  have ok: "dir_ok t" and bok: "buckets_ok h t" using inv by (simp_all add: eht_inv_def)
  have i: "?i < 2 ^ global_depth t" by (rule IndexOf_less)
  have len: "length (dir t) = 2 ^ global_depth t" using ok by (rule dir_ok_length)
  have same: "IndexOf h t k2 = ?i" using low by (simp add: IndexOf_take_bit)
  have "map_of ?xs k1 \<noteq> None" using c1 by (simp add: contents_eq)
  moreover have "map_of ?xs k2 \<noteq> None" using c2 same by (simp add: contents_eq)
  ultimately have "{k1, k2} \<subseteq> fst ` set ?xs" by (simp add: map_of_eq_None_iff)
  then have "card {k1, k2} \<le> card (fst ` set ?xs)" by (intro card_mono) simp_all
  also have "\<dots> \<le> length ?xs" using card_image_le[of "set ?xs" fst] card_length[of ?xs] by simp
  also have "\<dots> \<le> bucket_size t" using bok i len unfolding buckets_ok_def by simp
  finally show ?thesis using ne by simp
qed

lemma fits_depth:
  assumes "eht_inv h t" "length (dir t) \<le> m" "m \<le> 2 ^ 30"
  shows "global_depth t \<le> 30"
proof -
  have "length (dir t) = 2 ^ global_depth t" using assms(1) by (simp add: eht_inv_def dir_ok_length)
  then have "(2::nat) ^ global_depth t \<le> 2 ^ 30" using assms(2,3) by linarith
  then show ?thesis by (rule power_le_imp_le_exp[rotated]) simp
qed

text \<open>
  Claim C8, as amended: the source has no \<open>CapacityExhausted\<close> failure; a call of \<open>insert\<close>
  ends with success or with \<open>std::bad_alloc\<close>, thrown when the directory cannot be doubled.
  Let the memory hold a directory of at most \<open>max_slots\<close> slots, \<open>max_slots\<close> at most \<open>2 ^ 30\<close>, and
  let the table be reached by public operations. Then its global depth is at most 30, and
  \<open>insert(key, v)\<close> ends: with \<open>std::bad_alloc\<close>, or with success and \<open>key\<close> mapped to \<open>v\<close>. It
  ends with \<open>std::bad_alloc\<close> when more than \<open>bucket_size\<close> keys, among the stored keys and
  \<open>key\<close>, have the full hash of \<open>key\<close>. When the hashes of the stored keys and of \<open>key\<close> are
  below \<open>2 ^ D\<close> with \<open>2 ^ D\<close> at most \<open>max_slots\<close>, it succeeds exactly when at most \<open>bucket_size\<close>
  of these keys have the hash of \<open>key\<close>. In particular a sequence of operations whose
  inserted keys have hashes below \<open>2 ^ D\<close>, at most \<open>bucket_size\<close> of them sharing any hash,
  runs to its end with every insert successful and the global depth at most \<open>D\<close>.
\<close>

theorem insert_succeeds_or_bad_alloc:
  fixes t :: "('k, 'v) ExtendibleHashTable"
  assumes mem: "1 \<le> max_slots" "max_slots \<le> 2 ^ 30"
  shows "(eht_run_alloc max_slots h xs (new_ExtendibleHashTable bsize) = Some (Inserted t) \<longrightarrow>
            global_depth t \<le> 30 \<and>
            (Insert_alloc max_slots h key v t = Some BadAlloc \<or>
             (\<exists>t'. Insert_alloc max_slots h key v t = Some (Inserted t') \<and> Find h key t' = Some v \<and>
                   global_depth t' \<le> 30)) \<and>
            (bsize < card (same_hash_keys h t key) \<longrightarrow>
               Insert_alloc max_slots h key v t = Some BadAlloc) \<and>
            (\<forall>D. 2 ^ D \<le> max_slots \<and> (\<forall>k. (k = key \<or> contents h t k \<noteq> None) \<longrightarrow> h k < 2 ^ D) \<longrightarrow>
                 ((\<exists>t'. Insert_alloc max_slots h key v t = Some (Inserted t')) \<longleftrightarrow>
                  card (same_hash_keys h t key) \<le> bsize))) \<and>
         (\<forall>D. 2 ^ D \<le> max_slots \<and> (\<forall>k \<in> inserted_keys ops. h k < 2 ^ D) \<and>
              (\<forall>x. card {k \<in> inserted_keys ops. h k = x} \<le> bsize) \<longrightarrow>
              (\<exists>t' :: ('k, 'v) ExtendibleHashTable.
                 eht_run_alloc max_slots h ops (new_ExtendibleHashTable bsize) = Some (Inserted t') \<and>
                 global_depth t' \<le> D))"
proof (intro conjI impI allI)
  assume reach: "eht_run_alloc max_slots h xs (new_ExtendibleHashTable bsize) = Some (Inserted t)"
  note r = reachable_alloc[OF mem(1) reach]
  note tot = InsertInternal_alloc_total[OF r(3,2), of key v]
  show "global_depth t \<le> 30" using r(3,2) mem(2) by (rule fits_depth)
  show "Insert_alloc max_slots h key v t = Some BadAlloc \<or>
        (\<exists>t'. Insert_alloc max_slots h key v t = Some (Inserted t') \<and> Find h key t' = Some v \<and>
              global_depth t' \<le> 30)"
  proof -
    have "Find h key t' = Some v \<and> global_depth t' \<le> 30"
      if "InsertInternal h key v t = Some t'" "length (dir t') \<le> max_slots" for t'
    proof -
      from InsertInternal_post[OF that(1) r(3)]
      have p: "eht_inv h t'" "contents h t' = (contents h t)(key \<mapsto> v)"
        by (simp_all add: insert_post_def)
      from p(2) have "contents h t' key = Some v" by simp
      then have "Find h key t' = Some v" by (simp add: contents_def)
      moreover have "global_depth t' \<le> 30" using p(1) that(2) mem(2) by (rule fits_depth)
      ultimately show ?thesis ..
    qed
    then show ?thesis using tot unfolding Insert_alloc_def by blast
  qed
  show "Insert_alloc max_slots h key v t = Some BadAlloc" if "bsize < card (same_hash_keys h t key)"
    unfolding Insert_alloc_def using r(3,2) that[folded r(4)] by (rule InsertInternal_alloc_overfull)
  fix D
  assume a: "2 ^ D \<le> max_slots \<and> (\<forall>k. (k = key \<or> contents h t k \<noteq> None) \<longrightarrow> h k < 2 ^ D)"
  show "(\<exists>t'. Insert_alloc max_slots h key v t = Some (Inserted t')) \<longleftrightarrow>
        card (same_hash_keys h t key) \<le> bsize"
  proof
    assume "\<exists>t'. Insert_alloc max_slots h key v t = Some (Inserted t')"
    then have "Insert_alloc max_slots h key v t \<noteq> Some BadAlloc" by auto
    then have "\<not> bucket_size t < card (same_hash_keys h t key)"
      unfolding Insert_alloc_def using InsertInternal_alloc_overfull[OF r(3,2), of key v] by blast
    then show "card (same_hash_keys h t key) \<le> bsize" using r(4) by simp
  next
    assume "card (same_hash_keys h t key) \<le> bsize"
    then have few: "card (same_hash_keys h t key) \<le> bucket_size t" using r(4) by simp
    from a have b: "\<forall>k. (k = key \<or> contents h t k \<noteq> None) \<longrightarrow> h k < 2 ^ D" and D: "2 ^ D \<le> max_slots"
      by simp_all
    from InsertInternal_alloc_few[OF r(3,2) b D few, of v]
    show "\<exists>t'. Insert_alloc max_slots h key v t = Some (Inserted t')"
      unfolding Insert_alloc_def by blast
  qed
next
  fix D
  let ?K = "inserted_keys ops"
  let ?new = "new_ExtendibleHashTable bsize :: ('k, 'v) ExtendibleHashTable"
  assume a: "2 ^ D \<le> max_slots \<and> (\<forall>k \<in> ?K. h k < 2 ^ D) \<and> (\<forall>x. card {k \<in> ?K. h k = x} \<le> bsize)"
  then have D: "2 ^ D \<le> max_slots" and bound: "\<forall>k \<in> ?K. h k < 2 ^ D"
    and few: "\<forall>x. card {k \<in> ?K. h k = x} \<le> bsize" by simp_all
  have fin: "finite ?K" by (rule finite_inserted_keys)
  have start: "eht_inv h ?new" "bucket_size ?new = bsize" "{k. contents h ?new k \<noteq> None} \<subseteq> ?K"
    "global_depth ?new \<le> D"
    by (simp_all add: new_table_inv new_table_contents) (simp_all add: new_ExtendibleHashTable_def)
  from eht_run_alloc_workload[OF fin few bound D subset_refl start]
  show "\<exists>t' :: ('k, 'v) ExtendibleHashTable.
          eht_run_alloc max_slots h ops ?new = Some (Inserted t') \<and> global_depth t' \<le> D" .
qed

text \<open>
  An instance: identity hash, two pairs per bucket, memory for \<open>2 ^ 30\<close> slots. The six
  operations below have inserted hashes below \<open>2 ^ 4\<close> and succeed; the insert of key 9 into
  the table they leave succeeds too.
\<close>

theorem insert_succeeds_or_bad_alloc_witness:
  "eht_run_alloc (2 ^ 30) (\<lambda>x. x) [Op_Insert 0 10, Op_Insert 2 12, Op_Insert 1 11, Op_Remove 2,
      Op_Insert 4 14, Op_Insert 8 18] (new_ExtendibleHashTable 2) = Some (Inserted table_8) \<and>
   global_depth table_8 \<le> 4 \<and>
   card (same_hash_keys (\<lambda>x. x) table_8 9) \<le> 2 \<and>
   (\<exists>t'. Insert_alloc (2 ^ 30) (\<lambda>x. x) 9 0 table_8 = Some (Inserted t'))"
proof -
  let ?ops = "[Op_Insert 0 10, Op_Insert 2 12, Op_Insert 1 11, Op_Remove 2, Op_Insert 4 14,
      Op_Insert 8 18] :: (nat, nat) eht_op list"
  let ?new = "new_ExtendibleHashTable 2 :: (nat, nat) ExtendibleHashTable"
  have mem: "(1::nat) \<le> 2 ^ 30" "(2::nat) ^ 30 \<le> 2 ^ 30" by simp_all
  note inst = insert_succeeds_or_bad_alloc[OF mem, of "\<lambda>x. x" ?ops 2 table_8 9 0 ?ops]
  have D: "(2::nat) ^ 4 \<le> 2 ^ 30" by simp
  have few: "card {k \<in> inserted_keys ?ops. k = x} \<le> 2" for x
  proof -
    have "{k \<in> inserted_keys ?ops. k = x} \<subseteq> {x}" by auto
    then have "card {k \<in> inserted_keys ?ops. k = x} \<le> card {x}" by (intro card_mono) simp_all
    then show ?thesis by simp
  qed
  have bound: "\<forall>k \<in> inserted_keys ?ops. k < 2 ^ 4" by simp
  from inst D few bound obtain t' where
    t': "eht_run_alloc (2 ^ 30) (\<lambda>x. x) ?ops ?new = Some (Inserted t')" "global_depth t' \<le> 4"
    by blast
  have "length (dir ?new) \<le> 2 ^ 30" by (simp add: new_ExtendibleHashTable_def)
  from eht_run_alloc_sound[OF new_table_inv this t'(1)] table_8_run have "t' = table_8" by simp
  with t' have run: "eht_run_alloc (2 ^ 30) (\<lambda>x. x) ?ops ?new = Some (Inserted table_8)"
    and g: "global_depth table_8 \<le> 4" by simp_all
  have c: "card (same_hash_keys (\<lambda>x. x) table_8 9) \<le> 2" by (simp add: same_hash_keys_id)
  have stored: "k < 2 ^ 4" if "k = 9 \<or> contents (\<lambda>x. x) table_8 k \<noteq> None" for k :: nat
  proof (rule ccontr)
    assume "\<not> k < 2 ^ 4"
    then have k: "16 \<le> k" by simp
    then have "\<forall>x \<in> set ?ops. op_key x \<noteq> k" by simp
    from eht_run_other_keys[OF table_8_run new_table_inv this]
    have "contents (\<lambda>x. x) table_8 k = None" by (simp add: new_table_contents)
    then show False using that k by simp
  qed
  from inst run D stored c have "\<exists>t'. Insert_alloc (2 ^ 30) (\<lambda>x. x) 9 0 table_8 = Some (Inserted t')"
    by blast
  then show ?thesis using run g c by blast
qed

text \<open>
  Hashing by the identity, one pair per bucket: the keys 0 and \<open>2 ^ 30\<close> cannot be separated
  in a directory of at most \<open>2 ^ 30\<close> slots, whatever the memory within that bound.
\<close>

lemma low_bits_collision_bad_alloc:
  assumes mem: "1 \<le> m" "m \<le> 2 ^ 30"
  shows "eht_run_alloc m (\<lambda>x. x) [Op_Insert 0 10] (new_ExtendibleHashTable 1) = Some (Inserted table_a)"
    and "Insert_alloc m (\<lambda>x. x) (2 ^ 30) 11 table_a = Some BadAlloc"
proof -
  let ?new = "new_ExtendibleHashTable 1 :: (nat, nat) ExtendibleHashTable"
  have "Bucket_Insert 0 10 (store ?new ! (dir ?new ! IndexOf (\<lambda>x. x) ?new 0)) =
          (True, \<lparr>size_b = 1, depth = 0, list_b = [(0, 10)]\<rparr>)"
    unfolding new_ExtendibleHashTable_def by code_simp
  from InsertInternal_alloc_direct[OF this, of m]
  show run: "eht_run_alloc m (\<lambda>x. x) [Op_Insert 0 10] ?new = Some (Inserted table_a)"
    by (simp add: Insert_alloc_def new_ExtendibleHashTable_def table_a_def IndexOf_def)
  note r = reachable_alloc[OF mem(1) run]
  have no: "\<not> (InsertInternal (\<lambda>x. x) (2 ^ 30) 11 table_a = Some t' \<and> length (dir t') \<le> m)" for t'
  proof
    assume a: "InsertInternal (\<lambda>x. x) (2 ^ 30) 11 table_a = Some t' \<and> length (dir t') \<le> m"
    from InsertInternal_post[OF a[THEN conjunct1] r(3)]
    have p: "eht_inv (\<lambda>x. x) t'" "contents (\<lambda>x. x) t' = (contents (\<lambda>x. x) table_a)(2 ^ 30 \<mapsto> 11)"
      "bucket_size t' = bucket_size table_a"
      by (simp_all add: insert_post_def)
    have g: "global_depth t' \<le> 30" using p(1) a[THEN conjunct2] mem(2) by (rule fits_depth)
    have "contents (\<lambda>x. x) table_a 0 = Some 10"
      by (simp add: contents_eq table_a_def IndexOf_def)
    then have c0: "contents (\<lambda>x. x) t' 0 \<noteq> None" unfolding p(2) by simp
    have c1: "contents (\<lambda>x. x) t' (2 ^ 30) \<noteq> None" unfolding p(2) by simp
    have "(2::nat) ^ global_depth t' dvd 2 ^ 30" using g by (rule le_imp_power_dvd)
    then have "take_bit (global_depth t') ((2::nat) ^ 30) = 0"
      by (simp add: take_bit_eq_mod)
    then have low: "take_bit (global_depth t') (0::nat) = take_bit (global_depth t') (2 ^ 30)" by simp
    have "(0::nat) \<noteq> 2 ^ 30" by simp
    from colliding_keys_need_room[OF p(1) this c0 c1 low] p(3) show False
      by (simp add: table_a_def)
  qed
  from InsertInternal_alloc_total[OF r(3,2), of "2 ^ 30" 11] no
  show "Insert_alloc m (\<lambda>x. x) (2 ^ 30) 11 table_a = Some BadAlloc"
    unfolding Insert_alloc_def by blast
qed

text \<open>
  Claim C8 as stated (every call of \<open>insert\<close> succeeds or fails with \<open>CapacityExhausted\<close>, and
  succeeds when at most \<open>bucket_size\<close> keys share any full hash) fails. Take the identity hash
  (that of \<open>std::hash<int>\<close>), one pair per bucket, the table holding key 0, and memory for
  \<open>2 ^ 30\<close> directory slots. The keys 0 and \<open>2 ^ 30\<close> have different hashes, yet the insert of
  \<open>2 ^ 30\<close> ends in \<open>std::bad_alloc\<close>: the two hashes agree on their low 30 bits, so the
  bucket is split and the directory doubled until a directory of \<open>2 ^ 31\<close> slots is asked
  for. In a smaller memory the exception comes at an earlier doubling.
\<close>

theorem insert_ends_in_bad_alloc:
  "eht_run_alloc (2 ^ 30) (\<lambda>x. x) [Op_Insert 0 10] (new_ExtendibleHashTable 1) = Some (Inserted table_a) \<and>
   card (same_hash_keys (\<lambda>x. x) table_a (2 ^ 30)) \<le> bucket_size table_a \<and>
   Insert_alloc (2 ^ 30) (\<lambda>x. x) (2 ^ 30) 11 table_a = Some BadAlloc"
proof -
  have mem: "(1::nat) \<le> 2 ^ 30" "(2::nat) ^ 30 \<le> 2 ^ 30" by simp_all
  have c: "card (same_hash_keys (\<lambda>x. x) table_a (2 ^ 30)) \<le> bucket_size table_a"
    by (simp add: same_hash_keys_id table_a_def)
  from low_bits_collision_bad_alloc[OF mem] c show ?thesis by (simp only: simp_thms)
qed

subsection \<open>The bucket count\<close>

text \<open>
  Claim C9: every split during an insert increases \<open>GetNumBuckets\<close> by one. The code never
  assigns \<open>num_buckets_\<close> after the constructor: inserting key 1 into the full table
  \<open>table_a\<close> (capacity 1, holding key 0) splits its only bucket (the directory grows from
  one slot to two slots with two distinct buckets), and \<open>GetNumBuckets\<close> is 1 before and 1
  after.
\<close>

theorem GetNumBuckets_after_split:
  "eht_run (\<lambda>x. x) [Op_Insert 0 10] (new_ExtendibleHashTable 1) = Some table_a \<and>
   Insert (\<lambda>x. x) 1 11 table_a = Some table_b \<and>
   dir table_a = [0] \<and> dir table_b = [1, 2] \<and>
   GetNumBuckets table_a = 1 \<and> GetNumBuckets table_b = 1"
  unfolding table_a_def table_b_def by code_simp

section \<open>Results on the buffer pool manager\<close>

subsection \<open>The replacer, as the pool uses it\<close>

lemma map_of_map_modify:
  "map_of (map_modify f g m) = (case map_of m f of None \<Rightarrow> map_of m | Some fi \<Rightarrow> (map_of m)(f \<mapsto> g fi))"
  by (induction m) (auto simp: map_modify_def fun_eq_iff split: option.splits)

lemma map_fst_map_modify: "map fst (map_modify f g m) = map fst m"
  by (induction m) (auto simp: map_modify_def)

lemma map_of_map_erase: "map_of (map_erase f m) = (map_of m)(f := None)"
  by (induction m) (auto simp: map_erase_def fun_eq_iff)

lemma distinct_map_erase: "distinct (map fst m) \<Longrightarrow> distinct (map fst (map_erase f m))"
  by (simp add: map_erase_def distinct_map_filter)

lemma RecordAccess_Inl: "RecordAccess f r = Inl e \<Longrightarrow> e = AssertionFailure \<and> \<not> CheckFrameId r f"
  by (auto simp: RecordAccess_def Let_def split: if_splits)

lemma RecordAccess_Inr:
  assumes "RecordAccess f r = Inr r'"
  shows "CheckFrameId r f" "replacer_size r' = replacer_size r" "lru_k r' = lru_k r"
    "curr_size r' = curr_size r" "current_timestamp r' = current_timestamp r + 1"
    "tracked r' = (tracked r)(f \<mapsto> FrameInfo_RecordAccess (current_timestamp r)
        (case tracked r f of None \<Rightarrow> new_FrameInfo (lru_k r) | Some fi \<Rightarrow> fi))"
    "distinct (map fst (frame_map r)) \<Longrightarrow> distinct (map fst (frame_map r'))"
proof -
  show c: "CheckFrameId r f" using assms by (auto simp: RecordAccess_def split: if_splits)
  let ?m = "if map_count (frame_map r) f = 0 then frame_map r @ [(f, new_FrameInfo (lru_k r))]
            else frame_map r"
  have r': "r' = r\<lparr>frame_map := map_modify f (FrameInfo_RecordAccess (current_timestamp r)) ?m,
                    current_timestamp := current_timestamp r + 1\<rparr>"
    using assms c by (simp add: RecordAccess_def Let_def)
  show "replacer_size r' = replacer_size r" "lru_k r' = lru_k r"
    "curr_size r' = curr_size r" "current_timestamp r' = current_timestamp r + 1"
    by (simp_all add: r')
  have m: "map_of ?m = (map_of (frame_map r))(f \<mapsto>
      (case map_of (frame_map r) f of None \<Rightarrow> new_FrameInfo (lru_k r) | Some fi \<Rightarrow> fi))"
    by (auto simp: map_count_def fun_eq_iff map_add_def split: option.splits)
  show "tracked r' = (tracked r)(f \<mapsto> FrameInfo_RecordAccess (current_timestamp r)
        (case tracked r f of None \<Rightarrow> new_FrameInfo (lru_k r) | Some fi \<Rightarrow> fi))"
    unfolding tracked_def r' by (simp add: map_of_map_modify m)
  assume "distinct (map fst (frame_map r))"
  then have "distinct (map fst ?m)" by (auto simp: map_count_def map_of_eq_None_iff)
  then show "distinct (map fst (frame_map r'))" by (simp add: r' map_fst_map_modify)
qed

lemma RecordAccess_ok: "CheckFrameId r f \<Longrightarrow> \<exists>r'. RecordAccess f r = Inr r'"
  by (simp add: RecordAccess_def Let_def)

lemma SetEvictable_Inl:
  "SetEvictable f b r = Inl e \<Longrightarrow>
     (e = AssertionFailure \<and> \<not> CheckFrameId r f) \<or> (e = InvalidArgument \<and> tracked r f = None)"
  by (auto simp: SetEvictable_def tracked_def split: if_splits option.splits)

lemma SetEvictable_Inr:
  assumes "SetEvictable f b r = Inr r'"
  shows "replacer_size r' = replacer_size r" "lru_k r' = lru_k r"
    "current_timestamp r' = current_timestamp r"
    "\<exists>fi. tracked r f = Some fi \<and> tracked r' = (tracked r)(f \<mapsto> fi\<lparr>evictable := b\<rparr>)"
    "distinct (map fst (frame_map r)) \<Longrightarrow> distinct (map fst (frame_map r'))"
proof -
  from assms obtain fi where fi: "map_of (frame_map r) f = Some fi"
    by (auto simp: SetEvictable_def split: if_splits option.splits)
  have cases: "r' = r \<and> evictable fi = b \<or>
     (\<exists>c. r' = r\<lparr>curr_size := c, frame_map := map_modify f (FrameInfo_SetEvictable b) (frame_map r)\<rparr>)"
    using assms fi by (auto simp: SetEvictable_def IsEvictable_def split: if_splits)
  then show "replacer_size r' = replacer_size r" "lru_k r' = lru_k r"
    "current_timestamp r' = current_timestamp r" by auto
  from cases show "\<exists>fi. tracked r f = Some fi \<and> tracked r' = (tracked r)(f \<mapsto> fi\<lparr>evictable := b\<rparr>)"
  proof
    assume "r' = r \<and> evictable fi = b"
    then have "fi\<lparr>evictable := b\<rparr> = fi" by auto
    then show ?thesis using fi \<open>r' = r \<and> _\<close> by (auto simp: tracked_def fun_eq_iff)
  next
    assume "\<exists>c. r' = r\<lparr>curr_size := c, frame_map := map_modify f (FrameInfo_SetEvictable b) (frame_map r)\<rparr>"
    then show ?thesis using fi
      by (auto simp: tracked_def map_of_map_modify FrameInfo_SetEvictable_def)
  qed
  assume "distinct (map fst (frame_map r))"
  then show "distinct (map fst (frame_map r'))" using cases by (auto simp: map_fst_map_modify)
qed

lemma Remove_Inr:
  assumes "Remove f r = Inr r'"
  shows "replacer_size r' = replacer_size r" "lru_k r' = lru_k r"
    "current_timestamp r' = current_timestamp r"
    "tracked r' = (tracked r)(f := None)"
    "distinct (map fst (frame_map r)) \<Longrightarrow> distinct (map fst (frame_map r'))"
  using assms
  by (auto simp: Remove_def tracked_def map_of_map_erase distinct_map_erase fun_eq_iff
      split: if_splits option.splits)

lemma Remove_Inl:
  "Remove f r = Inl e \<Longrightarrow>
     (e = AssertionFailure \<and> \<not> CheckFrameId r f) \<or>
     (e = InvalidArgument \<and> (\<exists>fi. tracked r f = Some fi \<and> \<not> IsEvictable fi))"
  by (auto simp: Remove_def tracked_def split: if_splits option.splits)

lemma first_evictable_in:
  "first_evictable m \<noteq> - 1 \<Longrightarrow> \<exists>p \<in> set m. fst p = first_evictable m \<and> IsEvictable (snd p)"
  by (induction m) (auto split: if_splits)

lemma evict_scan_in:
  "evict_scan m tgt = Inr tgt' \<Longrightarrow>
     fst tgt' = fst tgt \<or> (\<exists>p \<in> set m. fst p = fst tgt' \<and> IsEvictable (snd p))"
  by (induction m tgt rule: evict_scan.induct) (auto split: if_splits sum.splits)

lemma Evict_Inr:
  assumes "Evict r = Inr (res, r')"
  shows "replacer_size r' = replacer_size r" "lru_k r' = lru_k r"
    "current_timestamp r' = current_timestamp r"
    "res = None \<Longrightarrow> r' = r"
    "res = Some f \<Longrightarrow> tracked r' = (tracked r)(f := None) \<and> curr_size r' = curr_size r - 1 \<and>
        (\<exists>p \<in> set (frame_map r). fst p = f \<and> IsEvictable (snd p))"
    "distinct (map fst (frame_map r)) \<Longrightarrow> distinct (map fst (frame_map r'))"
proof -
  let ?t = "first_evictable (frame_map r)"
  have none: "res = None \<and> r' = r" if "?t = - 1"
    using assms that by (simp add: Evict_def)
  have some: "\<exists>fi info tgt. map_of (frame_map r) ?t = Some fi \<and> GetAccessInfo fi = Inr info \<and>
      evict_scan (frame_map r) (?t, info) = Inr tgt \<and> res = Some (fst tgt) \<and>
      r' = r\<lparr>frame_map := map_erase (fst tgt) (frame_map r), curr_size := curr_size r - 1\<rparr>"
    if "?t \<noteq> - 1"
    using assms that by (auto simp: Evict_def Let_def split: option.splits sum.splits)
  show "replacer_size r' = replacer_size r" "lru_k r' = lru_k r"
    "current_timestamp r' = current_timestamp r"
    using none some by (cases "?t = - 1"; auto)+
  show "res = None \<Longrightarrow> r' = r" using none some by (cases "?t = - 1") auto
  show "distinct (map fst (frame_map r)) \<Longrightarrow> distinct (map fst (frame_map r'))"
    using none some by (cases "?t = - 1") (auto simp: distinct_map_erase)
  assume res: "res = Some f"
  then have t: "?t \<noteq> - 1" using none by auto
  from some[OF t] res obtain fi info tgt where
    s: "evict_scan (frame_map r) (?t, info) = Inr tgt" "f = fst tgt"
    "r' = r\<lparr>frame_map := map_erase (fst tgt) (frame_map r), curr_size := curr_size r - 1\<rparr>"
    by auto
  from evict_scan_in[OF s(1)] first_evictable_in[OF t] s(2)
  have "\<exists>p \<in> set (frame_map r). fst p = f \<and> IsEvictable (snd p)" by force
  then show "tracked r' = (tracked r)(f := None) \<and> curr_size r' = curr_size r - 1 \<and>
        (\<exists>p \<in> set (frame_map r). fst p = f \<and> IsEvictable (snd p))"
    using s(2,3) by (simp add: tracked_def map_of_map_erase)
qed

subsection \<open>Page table and replacer stay well-formed\<close>

lemma table_ok_remove:
  assumes "table_ok h pt pgs" "0 \<le> f" "nat f < length pgs"
  defines "pt' \<equiv> snd (Remove_eht h (page_id (pgs ! nat f)) pt)"
  shows "table_ok h pt' pgs" "\<And>pid. contents h pt' pid \<noteq> Some f"
proof -
  have inv: "eht_inv h pt" using assms(1) by (simp add: table_ok_def)
  have rm: "Remove_eht h (page_id (pgs ! nat f)) pt = (fst (Remove_eht h (page_id (pgs ! nat f)) pt), pt')"
    by (simp add: pt'_def)
  note c = Remove_eht_correct[OF inv rm]
  show "table_ok h pt' pgs" using assms(1) c(1,2) by (auto simp: table_ok_def split: if_splits)
  fix pid
  show "contents h pt' pid \<noteq> Some f"
  proof
    assume a: "contents h pt' pid = Some f"
    then have "pid \<noteq> page_id (pgs ! nat f)" "contents h pt pid = Some f"
      using c(2) by (auto split: if_splits)
    then show False using assms(1) by (auto simp: table_ok_def)
  qed
qed

lemma table_ok_remove_any:
  assumes "table_ok h pt pgs"
  shows "table_ok h (snd (Remove_eht h pid pt)) pgs"
proof -
  have inv: "eht_inv h pt" using assms(1) by (simp add: table_ok_def)
  have rm: "Remove_eht h pid pt = (fst (Remove_eht h pid pt), snd (Remove_eht h pid pt))" by simp
  note c = Remove_eht_correct[OF inv rm]
  show ?thesis using assms(1) c(1,2) by (auto simp: table_ok_def split: if_splits)
qed

lemma table_ok_set_page:
  assumes "table_ok h pt pgs" "\<And>pid. contents h pt pid \<noteq> Some f" "0 \<le> f"
  shows "table_ok h pt (pgs[nat f := p])"
  unfolding table_ok_def
proof (intro conjI allI impI)
  show "eht_inv h pt" using assms(1) by (simp add: table_ok_def)
  fix pid g assume c: "contents h pt pid = Some g"
  then have g: "0 \<le> g" "nat g < length pgs" "page_id (pgs ! nat g) = pid"
    using assms(1) by (auto simp: table_ok_def)
  have "g \<noteq> f" using c assms(2) by auto
  then have "nat g \<noteq> nat f" using g(1) assms(3) by simp
  then show "0 \<le> g" "nat g < length (pgs[nat f := p])" "page_id (pgs[nat f := p] ! nat g) = pid"
    using g by simp_all
qed

lemma table_ok_same_ids:
  assumes "table_ok h pt pgs" "page_id p = page_id (pgs ! i)"
  shows "table_ok h pt (pgs[i := p])"
proof -
  have "page_id (pgs[i := p] ! j) = page_id (pgs ! j)" if "j < length pgs" for j
    using that assms(2) by (cases "j = i") simp_all
  then show ?thesis using assms(1) unfolding table_ok_def by simp
qed

lemma table_ok_insert:
  assumes "table_ok h pt pgs" "Insert h pid f pt = Some pt'" "0 \<le> f" "nat f < length pgs"
    "page_id (pgs ! nat f) = pid"
  shows "table_ok h pt' pgs"
proof -
  have inv: "eht_inv h pt" using assms(1) by (simp add: table_ok_def)
  from assms(2) have "InsertInternal h pid f pt = Some pt'" by (simp add: Insert_def)
  from InsertInternal_post[OF this inv]
  have p: "eht_inv h pt'" "contents h pt' = (contents h pt)(pid \<mapsto> f)" by (simp_all add: insert_post_def)
  show ?thesis using assms(1,3,4,5) p by (auto simp: table_ok_def split: if_splits)
qed

lemma replacer_ok_mono: "replacer_ok r pgs X \<Longrightarrow> X \<subseteq> Y \<Longrightarrow> replacer_ok r pgs Y"
  unfolding replacer_ok_def by blast

lemma replacer_ok_set_page:
  assumes "replacer_ok r pgs X" "0 \<le> f"
  shows "replacer_ok r (pgs[nat f := p]) (insert f X)"
  unfolding replacer_ok_def
proof (intro conjI allI impI)
  show "distinct (map fst (frame_map r))" using assms(1) by (simp add: replacer_ok_def)
  fix g fi assume t: "tracked r g = Some fi"
  then have g: "0 \<le> g" "nat g < length pgs" "IsEvictable fi \<longrightarrow> g \<in> X \<or> pin_count (pgs ! nat g) = 0"
    using assms(1) unfolding replacer_ok_def by blast+
  show "0 \<le> g" "nat g < length (pgs[nat f := p])" using g by simp_all
  assume "IsEvictable fi"
  then show "g \<in> insert f X \<or> pin_count (pgs[nat f := p] ! nat g) = 0"
    using g assms(2) by (cases "g = f") (auto simp: nth_list_update)
qed

lemma replacer_ok_keep_pin:
  assumes "replacer_ok r pgs X" "pin_count p = pin_count (pgs ! i)"
  shows "replacer_ok r (pgs[i := p]) X"
proof -
  have "pin_count (pgs[i := p] ! j) = pin_count (pgs ! j)" if "j < length pgs" for j
    using that assms(2) by (cases "j = i") simp_all
  then show ?thesis using assms(1) unfolding replacer_ok_def by simp
qed

lemma replacer_ok_record:
  assumes ok: "replacer_ok r pgs X" and ra: "RecordAccess f r = Inr r'" and f: "0 \<le> f" "nat f < length pgs"
  shows "replacer_ok r' pgs X"
  unfolding replacer_ok_def
proof (intro conjI allI impI)
  note p = RecordAccess_Inr[OF ra]
  show "distinct (map fst (frame_map r'))" using ok p(7) by (simp add: replacer_ok_def)
  fix g fi assume t: "tracked r' g = Some fi"
  show "0 \<le> g" "nat g < length pgs"
    using t ok f unfolding p(6) replacer_ok_def by (auto split: if_splits)
  assume e: "IsEvictable fi"
  show "g \<in> X \<or> pin_count (pgs ! nat g) = 0"
  proof (cases "g = f")
    case False
    then show ?thesis using t e ok unfolding p(6) replacer_ok_def by auto
  next
    case True
    with t have fi: "fi = FrameInfo_RecordAccess (current_timestamp r)
        (case tracked r f of None \<Rightarrow> new_FrameInfo (lru_k r) | Some fi \<Rightarrow> fi)"
      unfolding p(6) by simp
    show ?thesis
    proof (cases "tracked r f")
      case None
      then show ?thesis using e fi
        by (simp add: FrameInfo_RecordAccess_def new_FrameInfo_def IsEvictable_def Let_def)
    next
      case (Some fi0)
      then have "IsEvictable fi0" using e fi
        by (simp add: FrameInfo_RecordAccess_def IsEvictable_def Let_def)
      then show ?thesis using Some ok True unfolding replacer_ok_def by blast
    qed
  qed
qed

lemma replacer_ok_set_evictable:
  assumes ok: "replacer_ok r pgs X" and se: "SetEvictable f b r = Inr r'"
    and pin: "b \<Longrightarrow> pin_count (pgs ! nat f) = 0"
  shows "replacer_ok r' pgs (X - {f})"
  unfolding replacer_ok_def
proof (intro conjI allI impI)
  note p = SetEvictable_Inr[OF se]
  from p(4) obtain fi0 where fi0: "tracked r f = Some fi0"
    "tracked r' = (tracked r)(f \<mapsto> fi0\<lparr>evictable := b\<rparr>)" by blast
  show "distinct (map fst (frame_map r'))" using ok p(5) by (simp add: replacer_ok_def)
  fix g fi assume t: "tracked r' g = Some fi"
  show "0 \<le> g" "nat g < length pgs"
    using t ok fi0 unfolding replacer_ok_def by (auto split: if_splits)
  assume e: "IsEvictable fi"
  show "g \<in> X - {f} \<or> pin_count (pgs ! nat g) = 0"
  proof (cases "g = f")
    case False
    then show ?thesis using t e ok unfolding fi0(2) replacer_ok_def by auto
  next
    case True
    then have "fi = fi0\<lparr>evictable := b\<rparr>" using t fi0(2) by simp
    then have b using e by (simp add: IsEvictable_def)
    then show ?thesis using pin True by simp
  qed
qed

lemma replacer_ok_erase:
  assumes ok: "replacer_ok r pgs X" and t: "tracked r' = (tracked r)(f := None)"
    and d: "distinct (map fst (frame_map r'))"
  shows "replacer_ok r' pgs (X - {f})"
  using ok d unfolding replacer_ok_def t by (auto split: if_splits)

lemma replacer_ok_evictable_pin:
  assumes "replacer_ok r pgs {}" "p \<in> set (frame_map r)" "IsEvictable (snd p)"
  shows "0 \<le> fst p" "nat (fst p) < length pgs" "pin_count (pgs ! nat (fst p)) = 0"
proof -
  have d: "distinct (map fst (frame_map r))" using assms(1) by (simp add: replacer_ok_def)
  have "tracked r (fst p) = Some (snd p)"
    unfolding tracked_def using d assms(2) by (intro map_of_is_SomeI) simp_all
  then show "0 \<le> fst p" "nat (fst p) < length pgs" "pin_count (pgs ! nat (fst p)) = 0"
    using assms(1,3) unfolding replacer_ok_def by blast+
qed

subsection \<open>The operations keep the pool well-formed\<close>

lemma write_back_fields [simp]:
  "pages (write_back f s) = pages s" "page_table (write_back f s) = page_table s"
  "replacer (write_back f s) = replacer s" "free_list (write_back f s) = free_list s"
  "pool_size (write_back f s) = pool_size s" "next_page_id (write_back f s) = next_page_id s"
  by (simp_all add: write_back_def)

lemma unmap_page_fields [simp]:
  "pages (unmap_page h f s) = pages s"
  "page_table (unmap_page h f s) = snd (Remove_eht h (page_id (pages s ! nat f)) (page_table s))"
  "replacer (unmap_page h f s) = replacer s" "free_list (unmap_page h f s) = free_list s"
  "pool_size (unmap_page h f s) = pool_size s" "next_page_id (unmap_page h f s) = next_page_id s"
  "disk_manager (unmap_page h f s) = disk_manager s"
  by (simp_all add: unmap_page_def page_at_def)

lemma set_page_fields [simp]:
  "pages (set_page f p s) = (pages s)[nat f := p]" "page_table (set_page f p s) = page_table s"
  "replacer (set_page f p s) = replacer s" "free_list (set_page f p s) = free_list s"
  "pool_size (set_page f p s) = pool_size s" "next_page_id (set_page f p s) = next_page_id s"
  "disk_manager (set_page f p s) = disk_manager s"
  by (simp_all add: set_page_def)

lemma state_after_call_replacer:
  assumes "state_after (call_replacer res s cont) = Some s'"
  shows "(res = Inl InvalidArgument \<and> s' = s) \<or>
         (\<exists>r. res = Inr r \<and> state_after (cont (s\<lparr>replacer := r\<rparr>)) = Some s')"
  using assms by (cases res) (auto simp: call_replacer_def split: if_splits)

lemma obtain_frame_inv:
  assumes inv: "bpm_inv h s" and ob: "obtain_frame s = Inr (res, s0)"
  shows "bpm_inv h s0" "pages s0 = pages s" "page_table s0 = page_table s"
    "disk_manager s0 = disk_manager s" "next_page_id s0 = next_page_id s"
    "res = None \<Longrightarrow> s0 = s"
    "res = Some f \<Longrightarrow> 0 \<le> f \<and> nat f < length (pages s)"
proof -
  have "bpm_inv h s0 \<and> pages s0 = pages s \<and> page_table s0 = page_table s \<and>
    disk_manager s0 = disk_manager s \<and> next_page_id s0 = next_page_id s \<and>
    (res = None \<longrightarrow> s0 = s) \<and> (res = Some f \<longrightarrow> 0 \<le> f \<and> nat f < length (pages s))"
  proof (cases "free_list s")
    case (Cons g rest)
    then have "res = Some g" "s0 = s\<lparr>free_list := rest\<rparr>" using ob by (simp_all add: obtain_frame_def)
    then show ?thesis using inv Cons by (auto simp: bpm_inv_def)
  next
    case Nil
    then obtain r' where ev: "Evict (replacer s) = Inr (res, r')" and s0: "s0 = s\<lparr>replacer := r'\<rparr>"
      using ob by (auto simp: obtain_frame_def split: sum.splits)
    note e = Evict_Inr[OF ev]
    have rok: "replacer_ok (replacer s) (pages s) {}" using inv by (simp add: bpm_inv_def)
    have rok': "replacer_ok r' (pages s) {}"
    proof (cases res)
      case None
      then show ?thesis using e(4) rok by simp
    next
      case (Some g)
      have d: "distinct (map fst (frame_map r'))" using e(6) rok by (simp add: replacer_ok_def)
      from e(5)[OF Some] have "tracked r' = (tracked (replacer s))(g := None)" by simp
      from replacer_ok_erase[OF rok this d] show ?thesis by simp
    qed
    have rng: "0 \<le> f \<and> nat f < length (pages s)" if "res = Some f"
    proof -
      from e(5)[OF that] obtain p where "p \<in> set (frame_map (replacer s))" "fst p = f"
        "IsEvictable (snd p)" by blast
      with replacer_ok_evictable_pin[OF rok this(1) this(3)] show ?thesis by simp
    qed
    have "res = None \<longrightarrow> s0 = s" using e(4) s0 by auto
    then show ?thesis using inv s0 rok' rng e(1) by (auto simp: bpm_inv_def)
  qed
  then show "bpm_inv h s0" "pages s0 = pages s" "page_table s0 = page_table s"
    "disk_manager s0 = disk_manager s" "next_page_id s0 = next_page_id s"
    "res = None \<Longrightarrow> s0 = s"
    "res = Some f \<Longrightarrow> 0 \<le> f \<and> nat f < length (pages s)"
    by simp_all
qed

text \<open>The frame taken by \<open>NewPgImp\<close> or \<open>FetchPgImp\<close>, emptied and given a new page.\<close>

lemma reuse_frame:
  assumes inv: "bpm_inv h s0" and f: "0 \<le> f" "nat f < length (pages s0)"
  defines "s2 \<equiv> unmap_page h f (write_back f s0)"
  assumes s3: "pages s3 = (pages s2)[nat f := p]" "page_table s3 = page_table s2"
    "replacer s3 = replacer s2" "free_list s3 = free_list s2" "pool_size s3 = pool_size s2"
  shows "length (pages s3) = pool_size s3" "replacer_size (replacer s3) = pool_size s3"
    "table_ok h (page_table s3) (pages s3)"
    "\<And>pid. contents h (page_table s3) pid \<noteq> Some f"
    "\<forall>g \<in> set (free_list s3). 0 \<le> g \<and> nat g < pool_size s3"
    "replacer_ok (replacer s3) (pages s3) {f}"
proof -
  have t0: "table_ok h (page_table s0) (pages s0)" using inv by (simp add: bpm_inv_def)
  note t2 = table_ok_remove[OF t0 f]
  show "length (pages s3) = pool_size s3" "replacer_size (replacer s3) = pool_size s3"
    "\<forall>g \<in> set (free_list s3). 0 \<le> g \<and> nat g < pool_size s3"
    using inv s3 by (simp_all add: bpm_inv_def s2_def)
  show "\<And>pid. contents h (page_table s3) pid \<noteq> Some f"
    using t2(2) s3 by (simp add: s2_def)
  show "table_ok h (page_table s3) (pages s3)"
    using table_ok_set_page[OF t2(1) t2(2) f(1), of p] s3 by (simp add: s2_def)
  have "replacer_ok (replacer s0) (pages s0) {}" using inv by (simp add: bpm_inv_def)
  from replacer_ok_set_page[OF this f(1), of p] show "replacer_ok (replacer s3) (pages s3) {f}"
    using s3 by (simp add: s2_def)
qed

text \<open>The end of \<open>NewPgImp\<close> and \<open>FetchPgImp\<close>: access recorded, frame pinned in the replacer.\<close>

lemma pin_in_replacer:
  assumes rok: "replacer_ok r pgs {f}" and f: "0 \<le> f" "nat f < length pgs"
    and sz: "replacer_size r = length pgs"
  shows "\<exists>r4 r5. RecordAccess f r = Inr r4 \<and> SetEvictable f False r4 = Inr r5 \<and>
           replacer_ok r5 pgs {} \<and> replacer_size r5 = length pgs"
proof -
  have "CheckFrameId r f" using f sz by (simp add: CheckFrameId_def)
  then obtain r4 where r4: "RecordAccess f r = Inr r4" using RecordAccess_ok by blast
  note p4 = RecordAccess_Inr[OF r4]
  have c4: "CheckFrameId r4 f" using \<open>CheckFrameId r f\<close> p4(2) by (simp add: CheckFrameId_def)
  have "tracked r4 f \<noteq> None" unfolding p4(6) by simp
  then obtain r5 where r5: "SetEvictable f False r4 = Inr r5"
    using c4 by (cases "SetEvictable f False r4") (auto dest: SetEvictable_Inl)
  have "replacer_ok r4 pgs {f}" using rok r4 f by (rule replacer_ok_record)
  from replacer_ok_set_evictable[OF this r5] have "replacer_ok r5 pgs {}" by simp
  then show ?thesis using r4 r5 p4(2) SetEvictable_Inr(1)[OF r5] sz by auto
qed

lemma call_replacer_Inr: "res = Inr r \<Longrightarrow> call_replacer res s cont = cont (s\<lparr>replacer := r\<rparr>)"
  by (simp add: call_replacer_def)

lemma NewPgImp_frame:
  assumes "obtain_frame s = Inr (Some f, s0)" "valid_frame s0 f"
    and "s2 = unmap_page h f (write_back f s0)"
    and "s3 = set_page f ((ResetMemory (page_at s2 f))\<lparr>page_id := next_page_id s2, pin_count := 1\<rparr>)
                       (s2\<lparr>next_page_id := next_page_id s2 + 1\<rparr>)"
  shows "NewPgImp h s =
     call_replacer (RecordAccess f (replacer s3)) s3 (\<lambda>s4.
               call_replacer (SetEvictable f False (replacer s4)) s4 (\<lambda>s5.
               case Insert h (page_id (page_at s5 f)) f (page_table s5) of
                 None \<Rightarrow> Aborts Diverges
               | Some pt \<Rightarrow> Returns (Some (page_id (page_at s5 f), f)) (s5\<lparr>page_table := pt\<rparr>)))"
  unfolding NewPgImp_def assms(1) assms(3,4) using assms(2)
  by (simp only: sum.case prod.case option.case Let_def if_False not_True_eq_False simp_thms)

lemma NewPgImp_inv:
  assumes inv: "bpm_inv h s" and run: "state_after (NewPgImp h s) = Some s'"
  shows "bpm_inv h s'"
proof (cases "obtain_frame s")
  case (Inl e)
  then show ?thesis using run by (simp add: NewPgImp_def)
next
  case (Inr x)
  obtain res s0 where x: "x = (res, s0)" by (cases x)
  note ob = obtain_frame_inv[OF inv Inr[unfolded x]]
  show ?thesis
  proof (cases res)
    case None
    then have "s' = s0" using run Inr x by (simp add: NewPgImp_def)
    then show ?thesis using ob(1) by simp
  next
    case (Some f)
    have f: "0 \<le> f" "nat f < length (pages s0)" using ob(7)[OF Some] ob(2) by simp_all
    then have vf: "valid_frame s0 f" by (simp add: valid_frame_def)
    define s2 where "s2 = unmap_page h f (write_back f s0)"
    define p where "p = (ResetMemory (page_at s2 f))\<lparr>page_id := next_page_id s2, pin_count := 1\<rparr>"
    define s3 where "s3 = set_page f p (s2\<lparr>next_page_id := next_page_id s2 + 1\<rparr>)"
    have ob': "obtain_frame s = Inr (Some f, s0)" using Inr x Some by simp
    note eq = NewPgImp_frame[OF ob' vf s2_def s3_def[unfolded p_def]]
    have s3f: "pages s3 = (pages s2)[nat f := p]"
      "page_table s3 = page_table s2" "replacer s3 = replacer s2" "free_list s3 = free_list s2"
      "pool_size s3 = pool_size s2"
      by (simp_all add: s3_def)
    note k = reuse_frame[OF ob(1) f, of s3, folded s2_def, OF s3f]
    have f3: "nat f < length (pages s3)" using f by (simp add: s3f s2_def)
    from pin_in_replacer[OF k(6) f(1) f3] k(1,2) obtain r4 r5 where
      r: "RecordAccess f (replacer s3) = Inr r4" "SetEvictable f False r4 = Inr r5"
      "replacer_ok r5 (pages s3) {}" "replacer_size r5 = length (pages s3)"
      by auto
    define s5 where "s5 = s3\<lparr>replacer := r4\<rparr>\<lparr>replacer := r5\<rparr>"
    have r2: "SetEvictable f False (replacer (s3\<lparr>replacer := r4\<rparr>)) = Inr r5" using r(2) by simp
    have run5: "state_after (case Insert h (page_id (page_at s5 f)) f (page_table s5) of
                 None \<Rightarrow> Aborts Diverges
               | Some pt \<Rightarrow> Returns (Some (page_id (page_at s5 f), f)) (s5\<lparr>page_table := pt\<rparr>)) = Some s'"
      using run unfolding eq call_replacer_Inr[OF r(1)] call_replacer_Inr[OF r2] s5_def .
    have s5f: "pages s5 = pages s3" "page_table s5 = page_table s3" "replacer s5 = r5"
      "free_list s5 = free_list s3" "pool_size s5 = pool_size s3"
      by (simp_all add: s5_def)
    show ?thesis
    proof (cases "Insert h (page_id (page_at s5 f)) f (page_table s5)")
      case None
      from run5 have False by (simp only: None option.case state_after.simps option.distinct)
      then show ?thesis ..
    next
      case ins: (Some pt)
      from run5 have "s5\<lparr>page_table := pt\<rparr> = s'"
        by (simp only: ins option.case state_after.simps option.inject)
      then have s': "s' = s5\<lparr>page_table := pt\<rparr>" by (rule sym)
      have a: "Insert h (page_id (pages s3 ! nat f)) f (page_table s3) = Some pt"
        using ins unfolding page_at_def s5f .
      have "table_ok h pt (pages s3)" using k(3) a f(1) f3 by (rule table_ok_insert) simp
      then show ?thesis
        unfolding bpm_inv_def s' using k(1,2,5) r(3,4) s5f by simp
    qed
  qed
qed

lemma replacer_ok_drop:
  assumes "replacer_ok r pgs X"
    and "\<And>fi. tracked r f = Some fi \<Longrightarrow> IsEvictable fi \<Longrightarrow> pin_count (pgs ! nat f) = 0"
  shows "replacer_ok r pgs (X - {f})"
  using assms unfolding replacer_ok_def by blast

lemma state_after_Returns: "state_after (Returns x s) = Some s' \<Longrightarrow> s' = s"
  by simp

lemma table_ok_Find:
  assumes "table_ok h pt pgs" "Find h pid pt = Some f"
  shows "0 \<le> f" "nat f < length pgs" "page_id (pgs ! nat f) = pid"
  using assms unfolding table_ok_def contents_def by blast+

lemma record_access_step:
  assumes st: "state_after (call_replacer (RecordAccess f (replacer s)) s (\<lambda>s1. Returns x s1)) = Some s'"
  shows "\<exists>r. RecordAccess f (replacer s) = Inr r \<and> s' = s\<lparr>replacer := r\<rparr>"
proof (cases "RecordAccess f (replacer s)")
  case (Inl e)
  then have "e = AssertionFailure" using RecordAccess_Inl by blast
  then show ?thesis using st Inl by (simp add: call_replacer_def)
next
  case (Inr r)
  from st[unfolded call_replacer_Inr[OF Inr]] have "s' = s\<lparr>replacer := r\<rparr>"
    by (rule state_after_Returns)
  then show ?thesis using Inr by blast
qed

lemma bpm_inv_record:
  assumes inv: "bpm_inv h s" and ra: "RecordAccess f (replacer s) = Inr r"
    and f: "0 \<le> f" "nat f < length (pages s)"
  shows "bpm_inv h (s\<lparr>replacer := r\<rparr>)"
proof -
  have "replacer_ok (replacer s) (pages s) {}" using inv by (simp add: bpm_inv_def)
  from replacer_ok_record[OF this ra f] have "replacer_ok r (pages s) {}" .
  then show ?thesis using inv RecordAccess_Inr(2)[OF ra] by (simp add: bpm_inv_def)
qed

lemma FetchPgImp_hit_inv:
  assumes inv: "bpm_inv h s" and hit: "Find h pid (page_table s) = Some f"
    and run: "state_after (FetchPgImp h pid s) = Some s'"
  shows "bpm_inv h s'"
proof -
  have t: "table_ok h (page_table s) (pages s)" using inv by (simp add: bpm_inv_def)
  note v = table_ok_Find[OF t hit]
  have "FetchPgImp h pid s = call_replacer (RecordAccess f (replacer s)) s (\<lambda>s1. Returns (Some f) s1)"
    by (simp only: FetchPgImp_def hit option.case)
  with run obtain r where r: "RecordAccess f (replacer s) = Inr r" and s': "s' = s\<lparr>replacer := r\<rparr>"
    using record_access_step by metis
  show ?thesis unfolding s' using inv r v(1,2) by (rule bpm_inv_record)
qed

lemma FetchPgImp_frame:
  assumes "Find h pid (page_table s) = None"
    and "obtain_frame s = Inr (Some f, s0)" "valid_frame s0 f"
    and "s2 = unmap_page h f (write_back f s0)"
    and "s3 = set_page f ((ResetMemory (page_at s2 f))\<lparr>page_id := pid, pin_count := 1\<rparr>) s2"
  shows "FetchPgImp h pid s =
     (case Insert h (page_id (page_at s3 f)) f (page_table s3) of
        None \<Rightarrow> Aborts Diverges
      | Some pt \<Rightarrow>
          let s4 = s3\<lparr>page_table := pt\<rparr>;
              s5 = set_page f ((page_at s4 f)\<lparr>data := ReadPage (page_id (page_at s4 f)) (disk_manager s4)\<rparr>) s4
          in call_replacer (RecordAccess f (replacer s5)) s5 (\<lambda>s6.
             call_replacer (SetEvictable f False (replacer s6)) s6 (\<lambda>s7.
             Returns (Some f) s7)))"
  unfolding FetchPgImp_def assms(1,2) assms(4,5) using assms(3)
  by (simp only: sum.case prod.case option.case Let_def if_False not_True_eq_False simp_thms)

lemma FetchPgImp_miss_inv:
  assumes inv: "bpm_inv h s" and miss: "Find h pid (page_table s) = None"
    and run: "state_after (FetchPgImp h pid s) = Some s'"
  shows "bpm_inv h s'"
proof (cases "obtain_frame s")
  case (Inl e)
  then show ?thesis using run miss by (simp add: FetchPgImp_def)
next
  case (Inr x)
  obtain res s0 where x: "x = (res, s0)" by (cases x)
  note ob = obtain_frame_inv[OF inv Inr[unfolded x]]
  show ?thesis
  proof (cases res)
    case None
    then have "s' = s0" using run Inr x miss by (simp add: FetchPgImp_def)
    then show ?thesis using ob(1) by simp
  next
    case (Some f)
    have f: "0 \<le> f" "nat f < length (pages s0)" using ob(7)[OF Some] ob(2) by simp_all
    then have vf: "valid_frame s0 f" by (simp add: valid_frame_def)
    define s2 where "s2 = unmap_page h f (write_back f s0)"
    define p where "p = (ResetMemory (page_at s2 f))\<lparr>page_id := pid, pin_count := 1\<rparr>"
    define s3 where "s3 = set_page f p s2"
    have ob': "obtain_frame s = Inr (Some f, s0)" using Inr x Some by simp
    note eq = FetchPgImp_frame[OF miss ob' vf s2_def s3_def[unfolded p_def]]
    have s3f: "pages s3 = (pages s2)[nat f := p]"
      "page_table s3 = page_table s2" "replacer s3 = replacer s2" "free_list s3 = free_list s2"
      "pool_size s3 = pool_size s2"
      by (simp_all add: s3_def)
    note k = reuse_frame[OF ob(1) f, of s3, folded s2_def, OF s3f]
    have f3: "nat f < length (pages s3)" using f by (simp add: s3f s2_def)
    show ?thesis
    proof (cases "Insert h (page_id (page_at s3 f)) f (page_table s3)")
      case None
      from run have False unfolding eq by (simp only: None option.case state_after.simps option.distinct)
      then show ?thesis ..
    next
      case ins: (Some pt)
      define s4 where "s4 = s3\<lparr>page_table := pt\<rparr>"
      define p5 where "p5 = (page_at s4 f)\<lparr>data := ReadPage (page_id (page_at s4 f)) (disk_manager s4)\<rparr>"
      define s5 where "s5 = set_page f p5 s4"
      have run5: "state_after (call_replacer (RecordAccess f (replacer s5)) s5 (\<lambda>s6.
             call_replacer (SetEvictable f False (replacer s6)) s6 (\<lambda>s7.
             Returns (Some f) s7))) = Some s'"
        using run unfolding eq ins option.case Let_def s5_def p5_def s4_def .
      have a: "Insert h (page_id (pages s3 ! nat f)) f (page_table s3) = Some pt"
        using ins unfolding page_at_def .
      have t3: "table_ok h pt (pages s3)" using k(3) a f(1) f3 by (rule table_ok_insert) simp
      have s5f: "pages s5 = (pages s3)[nat f := p5]" "page_table s5 = pt" "replacer s5 = replacer s3"
        "free_list s5 = free_list s3" "pool_size s5 = pool_size s3"
        by (simp_all add: s5_def s4_def)
      have p5: "page_id p5 = page_id (pages s3 ! nat f)" "pin_count p5 = pin_count (pages s3 ! nat f)"
        by (simp_all add: p5_def page_at_def s4_def)
      have t5: "table_ok h pt (pages s5)" unfolding s5f using t3 p5(1) by (rule table_ok_same_ids)
      have r5: "replacer_ok (replacer s5) (pages s5) {f}"
        unfolding s5f using k(6) p5(2) by (rule replacer_ok_keep_pin)
      have f5: "nat f < length (pages s5)" using f3 by (simp add: s5f)
      have sz: "replacer_size (replacer s5) = length (pages s5)" using k(1,2) by (simp add: s5f)
      from pin_in_replacer[OF r5 f(1) f5 sz] obtain r6 r7 where
        r: "RecordAccess f (replacer s5) = Inr r6" "SetEvictable f False r6 = Inr r7"
        "replacer_ok r7 (pages s5) {}" "replacer_size r7 = length (pages s5)"
        by auto
      have r2: "SetEvictable f False (replacer (s5\<lparr>replacer := r6\<rparr>)) = Inr r7" using r(2) by simp
      have "state_after (Returns (Some f) (s5\<lparr>replacer := r6\<rparr>\<lparr>replacer := r7\<rparr>)) = Some s'"
        using run5 unfolding call_replacer_Inr[OF r(1)] call_replacer_Inr[OF r2] .
      then have s': "s' = s5\<lparr>replacer := r6\<rparr>\<lparr>replacer := r7\<rparr>" by (rule state_after_Returns)
      show ?thesis
        unfolding bpm_inv_def s' using k(1,5) t5 r(3,4) s5f by simp
    qed
  qed
qed

lemma FetchPgImp_inv:
  "bpm_inv h s \<Longrightarrow> state_after (FetchPgImp h pid s) = Some s' \<Longrightarrow> bpm_inv h s'"
  by (cases "Find h pid (page_table s)") (auto intro: FetchPgImp_miss_inv FetchPgImp_hit_inv)

lemma bpm_inv_valid_frame:
  assumes "bpm_inv h s" "Find h pid (page_table s) = Some f"
  shows "valid_frame s f" "0 \<le> f" "nat f < length (pages s)" "page_id (pages s ! nat f) = pid"
proof -
  have t: "table_ok h (page_table s) (pages s)" using assms(1) by (simp add: bpm_inv_def)
  note v = table_ok_Find[OF t assms(2)]
  show "0 \<le> f" "nat f < length (pages s)" "page_id (pages s ! nat f) = pid" using v by simp_all
  then show "valid_frame s f" using assms(1) by (simp add: valid_frame_def bpm_inv_def)
qed

lemma bpm_inv_same_page:
  assumes inv: "bpm_inv h s" and p: "page_id p = page_id (pages s ! nat f)"
    "pin_count p = pin_count (pages s ! nat f)"
  shows "bpm_inv h (set_page f p s)"
proof -
  have "table_ok h (page_table s) ((pages s)[nat f := p])"
    using inv p(1) by (intro table_ok_same_ids) (simp_all add: bpm_inv_def)
  moreover have "replacer_ok (replacer s) ((pages s)[nat f := p]) {}"
    using inv p(2) by (intro replacer_ok_keep_pin) (simp_all add: bpm_inv_def)
  ultimately show ?thesis using inv by (simp add: bpm_inv_def)
qed

lemma UnpinPgImp_frame:
  assumes "Find h pid (page_table s) = Some f" "valid_frame s f" "pin_count (page_at s f) \<noteq> 0"
    and "s1 = set_page f ((page_at s f)\<lparr>pin_count := pin_count (page_at s f) - 1\<rparr>) s"
  shows "UnpinPgImp h pid dirty s =
    (if pin_count (page_at s1 f) = 0
     then call_replacer (SetEvictable f True (replacer s1)) s1
            (\<lambda>s2. Returns True (set_page f ((page_at s2 f)\<lparr>is_dirty := dirty\<rparr>) s2))
     else Returns True (set_page f ((page_at s1 f)\<lparr>is_dirty := dirty\<rparr>) s1))"
  unfolding UnpinPgImp_def assms(1) assms(4) using assms(2,3)
  by (simp only: option.case Let_def if_False not_True_eq_False simp_thms)

lemma UnpinPgImp_inv:
  assumes inv: "bpm_inv h s" and run: "state_after (UnpinPgImp h pid dirty s) = Some s'"
  shows "bpm_inv h s'"
proof (cases "Find h pid (page_table s)")
  case None
  then have "s' = s" using run by (simp add: UnpinPgImp_def)
  then show ?thesis using inv by simp
next
  case (Some f)
  note v = bpm_inv_valid_frame[OF inv Some]
  show ?thesis
  proof (cases "pin_count (page_at s f) = 0")
    case True
    then have "s' = s" using run Some v(1) by (simp add: UnpinPgImp_def)
    then show ?thesis using inv by simp
  next
    case False
    define p1 where "p1 = (page_at s f)\<lparr>pin_count := pin_count (page_at s f) - 1\<rparr>"
    define s1 where "s1 = set_page f p1 s"
    note eq = UnpinPgImp_frame[OF Some v(1) False s1_def[unfolded p1_def], of dirty]
    have rok: "replacer_ok (replacer s) (pages s) {}" using inv by (simp add: bpm_inv_def)
    have ne: "\<not> IsEvictable fi" if "tracked (replacer s) f = Some fi" for fi
      using rok that False unfolding replacer_ok_def page_at_def by blast
    have "replacer_ok (replacer s) ((pages s)[nat f := p1]) ({f} - {f})"
      using replacer_ok_set_page[OF rok v(2), of p1] ne
      by (intro replacer_ok_drop) auto
    then have rok1: "replacer_ok (replacer s1) (pages s1) {}" by (simp add: s1_def)
    have "table_ok h (page_table s) ((pages s)[nat f := p1])"
      using inv by (intro table_ok_same_ids) (simp_all add: bpm_inv_def p1_def page_at_def)
    then have inv1: "bpm_inv h s1" using inv rok1 by (simp add: bpm_inv_def s1_def)
    have fin: "bpm_inv h (set_page f ((page_at s2 f)\<lparr>is_dirty := dirty\<rparr>) s2)" if "bpm_inv h s2" for s2
      using that by (rule bpm_inv_same_page) (simp_all add: page_at_def)
    show ?thesis
    proof (cases "pin_count (page_at s1 f) = 0")
      case nz: False
      have "state_after (Returns True (set_page f ((page_at s1 f)\<lparr>is_dirty := dirty\<rparr>) s1)) = Some s'"
        using run unfolding eq using nz by (simp only: if_False simp_thms)
      then have "s' = set_page f ((page_at s1 f)\<lparr>is_dirty := dirty\<rparr>) s1" by (rule state_after_Returns)
      then show ?thesis using fin[OF inv1] by simp
    next
      case z: True
      have run1: "state_after (call_replacer (SetEvictable f True (replacer s1)) s1
            (\<lambda>s2. Returns True (set_page f ((page_at s2 f)\<lparr>is_dirty := dirty\<rparr>) s2))) = Some s'"
        using run unfolding eq using z by (simp only: if_True refl simp_thms)
      from state_after_call_replacer[OF run1] show ?thesis
      proof (elim disjE conjE exE)
        assume "s' = s1"
        then show ?thesis using inv1 by simp
      next
        fix r assume r: "SetEvictable f True (replacer s1) = Inr r"
          and st: "state_after (Returns True (set_page f ((page_at (s1\<lparr>replacer := r\<rparr>) f)\<lparr>is_dirty := dirty\<rparr>) (s1\<lparr>replacer := r\<rparr>))) = Some s'"
        have z': "pin_count (pages s1 ! nat f) = 0" using z by (simp add: page_at_def)
        from replacer_ok_set_evictable[OF rok1 r z'] have "replacer_ok r (pages s1) {}" by simp
        then have inv2: "bpm_inv h (s1\<lparr>replacer := r\<rparr>)"
          using inv1 SetEvictable_Inr(1)[OF r] by (simp add: bpm_inv_def)
        from st have "s' = set_page f ((page_at (s1\<lparr>replacer := r\<rparr>) f)\<lparr>is_dirty := dirty\<rparr>) (s1\<lparr>replacer := r\<rparr>)"
          by (rule state_after_Returns)
        then show ?thesis using fin[OF inv2] by simp
      qed
    qed
  qed
qed

lemma FlushPgImp_frame:
  assumes "Find h pid (page_table s) = Some f" "valid_frame s f"
    and "s2 = set_page f ((page_at s f)\<lparr>is_dirty := False\<rparr>)
                (s\<lparr>disk_manager := WritePage pid (data (page_at s f)) (disk_manager s)\<rparr>)"
  shows "FlushPgImp h pid s = call_replacer (RecordAccess f (replacer s2)) s2 (\<lambda>s3. Returns True s3)"
proof -
  have "page_at (s\<lparr>disk_manager := d\<rparr>) f = page_at s f" for d by (simp add: page_at_def)
  then show ?thesis
    unfolding FlushPgImp_def assms(1) assms(3) using assms(2)
    by (simp only: option.case Let_def if_False not_True_eq_False simp_thms)
qed

text \<open>What a flush of a resident page does.\<close>

lemma FlushPgImp_resident:
  assumes inv: "bpm_inv h s" and hit: "Find h pid (page_table s) = Some f"
  defines "s2 \<equiv> set_page f ((page_at s f)\<lparr>is_dirty := False\<rparr>)
                (s\<lparr>disk_manager := WritePage pid (data (page_at s f)) (disk_manager s)\<rparr>)"
  shows "\<exists>r. RecordAccess f (replacer s) = Inr r \<and>
             FlushPgImp h pid s = Returns True (s2\<lparr>replacer := r\<rparr>) \<and> bpm_inv h (s2\<lparr>replacer := r\<rparr>)"
proof -
  note v = bpm_inv_valid_frame[OF inv hit]
  have eq: "FlushPgImp h pid s = call_replacer (RecordAccess f (replacer s2)) s2 (\<lambda>s3. Returns True s3)"
    unfolding s2_def by (rule FlushPgImp_frame[OF hit v(1) refl])
  have "bpm_inv h (s\<lparr>disk_manager := WritePage pid (data (page_at s f)) (disk_manager s)\<rparr>)"
    using inv by (simp add: bpm_inv_def)
  then have inv2: "bpm_inv h s2" unfolding s2_def
    by (rule bpm_inv_same_page) (simp_all add: page_at_def)
  have rs: "replacer s2 = replacer s" by (simp add: s2_def)
  have "CheckFrameId (replacer s) f" using v inv by (simp add: CheckFrameId_def bpm_inv_def)
  then obtain r where r: "RecordAccess f (replacer s) = Inr r" using RecordAccess_ok by blast
  have r2: "RecordAccess f (replacer s2) = Inr r" using r rs by simp
  have f2: "nat f < length (pages s2)" using v by (simp add: s2_def)
  have "bpm_inv h (s2\<lparr>replacer := r\<rparr>)" using inv2 r2 v(2) f2 by (rule bpm_inv_record)
  moreover have "FlushPgImp h pid s = Returns True (s2\<lparr>replacer := r\<rparr>)"
    unfolding eq call_replacer_Inr[OF r2] ..
  ultimately show ?thesis using r by blast
qed

lemma FlushPgImp_absent:
  "Find h pid (page_table s) = None \<Longrightarrow> FlushPgImp h pid s = Returns False s"
  by (simp add: FlushPgImp_def)

lemma FlushPgImp_returns:
  assumes inv: "bpm_inv h s"
  shows "\<exists>b s'. FlushPgImp h pid s = Returns b s' \<and> bpm_inv h s' \<and> pool_size s' = pool_size s"
proof (cases "Find h pid (page_table s)")
  case None
  then show ?thesis using inv FlushPgImp_absent by blast
next
  case (Some f)
  from FlushPgImp_resident[OF inv Some] show ?thesis by auto
qed

lemma FlushPgImp_inv:
  assumes inv: "bpm_inv h s" and run: "state_after (FlushPgImp h pid s) = Some s'"
  shows "bpm_inv h s'"
  using FlushPgImp_returns[OF inv, of pid] run by auto

lemma flush_loop_returns:
  "bpm_inv h s \<Longrightarrow> \<exists>s'. flush_loop h is s = Returns () s' \<and> bpm_inv h s' \<and> pool_size s' = pool_size s"
proof (induction "is" arbitrary: s)
  case Nil
  then show ?case by simp
next
  case (Cons i rest)
  from FlushPgImp_returns[OF Cons.prems, of "page_id (pages s ! i)"] obtain b s1 where
    s1: "FlushPgImp h (page_id (pages s ! i)) s = Returns b s1" "bpm_inv h s1" "pool_size s1 = pool_size s"
    by blast
  from Cons.IH[OF s1(2)] obtain s' where "flush_loop h rest s1 = Returns () s'" "bpm_inv h s'"
    "pool_size s' = pool_size s1" by blast
  then show ?case using s1 by simp
qed

lemma FlushAllPgsImp_inv:
  assumes inv: "bpm_inv h s" and run: "state_after (FlushAllPgsImp h s) = Some s'"
  shows "bpm_inv h s'"
  using flush_loop_returns[OF inv, of "[0 ..< pool_size s]"] run by (auto simp: FlushAllPgsImp_def)

lemma DeletePgImp_frame:
  assumes "Find h pid (page_table s) = Some f" "valid_frame s f" "\<not> pin_count (page_at s f) > 0"
    and "s1 = s\<lparr>page_table := snd (Remove_eht h pid (page_table s))\<rparr>"
  shows "DeletePgImp h pid s =
    call_replacer (Remove f (replacer s1)) s1 (\<lambda>s2.
      Returns True ((set_page f ((ResetMemory (page_at s2 f))
                             \<lparr>page_id := INVALID_PAGE_ID, pin_count := 0, is_dirty := False\<rparr>) s2)
         \<lparr>free_list := free_list (set_page f ((ResetMemory (page_at s2 f))
                             \<lparr>page_id := INVALID_PAGE_ID, pin_count := 0, is_dirty := False\<rparr>) s2) @ [f]\<rparr>))"
  unfolding DeletePgImp_def assms(1) assms(4) using assms(2,3)
  by (simp only: option.case Let_def if_False not_True_eq_False simp_thms)

lemma DeletePgImp_inv:
  assumes inv: "bpm_inv h s" and run: "state_after (DeletePgImp h pid s) = Some s'"
  shows "bpm_inv h s'"
proof (cases "Find h pid (page_table s)")
  case None
  then have "s' = s" using run by (simp add: DeletePgImp_def)
  then show ?thesis using inv by simp
next
  case (Some f)
  note v = bpm_inv_valid_frame[OF inv Some]
  show ?thesis
  proof (cases "pin_count (page_at s f) > 0")
    case True
    then have "s' = s" using run Some v(1) by (simp add: DeletePgImp_def)
    then show ?thesis using inv by simp
  next
    case False
    define s1 where "s1 = s\<lparr>page_table := snd (Remove_eht h pid (page_table s))\<rparr>"
    note eq = DeletePgImp_frame[OF Some v(1) False s1_def]
    have t: "table_ok h (page_table s) (pages s)" using inv by (simp add: bpm_inv_def)
    note t1 = table_ok_remove[OF t v(2,3), unfolded v(4)]
    have inv1: "bpm_inv h s1" using inv t1(1) by (simp add: bpm_inv_def s1_def)
    from state_after_call_replacer[OF run[unfolded eq]] show ?thesis
    proof (elim disjE conjE exE)
      assume "s' = s1"
      then show ?thesis using inv1 by simp
    next
      fix r
      define p3 where "p3 = (ResetMemory (page_at (s1\<lparr>replacer := r\<rparr>) f))
                             \<lparr>page_id := INVALID_PAGE_ID, pin_count := 0, is_dirty := False\<rparr>"
      define s3 where "s3 = set_page f p3 (s1\<lparr>replacer := r\<rparr>)"
      assume r: "Remove f (replacer s1) = Inr r"
        and st: "state_after (Returns True ((set_page f ((ResetMemory (page_at (s1\<lparr>replacer := r\<rparr>) f))
                             \<lparr>page_id := INVALID_PAGE_ID, pin_count := 0, is_dirty := False\<rparr>) (s1\<lparr>replacer := r\<rparr>))
         \<lparr>free_list := free_list (set_page f ((ResetMemory (page_at (s1\<lparr>replacer := r\<rparr>) f))
                             \<lparr>page_id := INVALID_PAGE_ID, pin_count := 0, is_dirty := False\<rparr>) (s1\<lparr>replacer := r\<rparr>)) @ [f]\<rparr>)) = Some s'"
      from st have s': "s' = s3\<lparr>free_list := free_list s3 @ [f]\<rparr>"
        unfolding s3_def p3_def by (rule state_after_Returns)
      note p = Remove_Inr[OF r]
      have rok: "replacer_ok (replacer s1) (pages s) {}" using inv by (simp add: bpm_inv_def s1_def)
      have d: "distinct (map fst (frame_map r))" using p(5) rok by (simp add: replacer_ok_def)
      from replacer_ok_erase[OF rok p(4) d] have "replacer_ok r (pages s) {}" by simp
      from replacer_ok_set_page[OF this v(2), of p3]
      have "replacer_ok r ((pages s)[nat f := p3]) ({f} - {f})"
        by (rule replacer_ok_drop) (simp add: p(4))
      then have rok3: "replacer_ok r (pages s3) {}" by (simp add: s3_def s1_def)
      have "table_ok h (page_table s1) ((pages s)[nat f := p3])"
        using t1(1) t1(2) v(2) unfolding s1_def by (simp add: table_ok_set_page)
      then have t3: "table_ok h (page_table s3) (pages s3)" by (simp add: s3_def s1_def)
      have s3f: "pool_size s3 = pool_size s" "free_list s3 = free_list s" "replacer s3 = r"
        "length (pages s3) = length (pages s)"
        by (simp_all add: s3_def s1_def)
      show ?thesis unfolding bpm_inv_def s'
        using inv t3 rok3 s3f p(1) v(2,3) by (simp add: bpm_inv_def s1_def)
    qed
  qed
qed

lemma bpm_apply_inv: "bpm_inv h s \<Longrightarrow> bpm_apply h x s = Some s' \<Longrightarrow> bpm_inv h s'"
  by (cases x)
     (auto intro: NewPgImp_inv FetchPgImp_inv UnpinPgImp_inv FlushPgImp_inv FlushAllPgsImp_inv
        DeletePgImp_inv)

lemma bpm_run_inv: "bpm_inv h s \<Longrightarrow> bpm_run h xs s = Some s' \<Longrightarrow> bpm_inv h s'"
proof (induction xs arbitrary: s)
  case Nil
  then show ?case by simp
next
  case (Cons x xs)
  then obtain s1 where "bpm_apply h x s = Some s1" "bpm_run h xs s1 = Some s'"
    by (auto simp: bind_eq_Some_conv)
  then show ?case using Cons.IH bpm_apply_inv Cons.prems(1) by blast
qed

lemma bpm_inv_new: "bpm_inv h (new_BufferPoolManagerInstance pool_sz dm replacer_k bsize)"
proof -
  have "table_ok h (new_ExtendibleHashTable bsize) pgs" for pgs
    by (simp add: table_ok_def new_table_inv new_table_contents)
  moreover have "replacer_ok (new_LRUKReplacer pool_sz replacer_k) pgs {}" for pgs
    by (simp add: replacer_ok_def new_LRUKReplacer_def tracked_def)
  ultimately show ?thesis
    by (simp add: bpm_inv_def new_BufferPoolManagerInstance_def new_LRUKReplacer_def)
qed

lemma reachable_bpm_inv:
  "bpm_run h ops (new_BufferPoolManagerInstance pool_sz dm replacer_k bsize) = Some s \<Longrightarrow> bpm_inv h s"
  using bpm_inv_new by (rule bpm_run_inv)

subsection \<open>Pin safety and the effect of a flush\<close>






text \<open>
  Claim C5: in every state reached from a fresh pool by any sequence of \<open>new_page\<close>,
  \<open>fetch_page\<close>, \<open>unpin_page\<close>, \<open>flush_page\<close>, \<open>flush_all\<close> and \<open>delete_page\<close> calls, a
  frame that \<open>Evict\<close> returns is a frame of the pool whose \<open>pin_count\<close> is not above 0, and
  so is every frame that the replacer holds as evictable. The states reached include those
  left behind by a call that ended with \<open>std::invalid_argument\<close>.
\<close>

theorem pin_safety:
  assumes "bpm_run h ops (new_BufferPoolManagerInstance pool_sz dm replacer_k bsize) = Some s"
  shows "(\<forall>f r'. Evict (replacer s) = Inr (Some f, r') \<longrightarrow>
            valid_frame s f \<and> \<not> pin_count (page_at s f) > 0) \<and>
         (\<forall>f fi. map_of (frame_map (replacer s)) f = Some fi \<and> IsEvictable fi \<longrightarrow>
            valid_frame s f \<and> \<not> pin_count (page_at s f) > 0)"
proof -
  have inv: "bpm_inv h s" using assms by (rule reachable_bpm_inv)
  then have rok: "replacer_ok (replacer s) (pages s) {}" and len: "length (pages s) = pool_size s"
    by (simp_all add: bpm_inv_def)
  have b: "valid_frame s f \<and> \<not> pin_count (page_at s f) > 0"
    if "map_of (frame_map (replacer s)) f = Some fi" "IsEvictable fi" for f fi
  proof -
    from that(1) have "tracked (replacer s) f = Some fi" by (simp add: tracked_def)
    with rok that(2) have "0 \<le> f" "nat f < length (pages s)" "pin_count (pages s ! nat f) = 0"
      unfolding replacer_ok_def by blast+
    then show ?thesis using len by (simp add: valid_frame_def page_at_def)
  qed
  have a: "valid_frame s f \<and> \<not> pin_count (page_at s f) > 0"
    if "Evict (replacer s) = Inr (Some f, r')" for f r'
  proof -
    from Evict_Inr(5)[OF that] obtain p where p: "p \<in> set (frame_map (replacer s))" "fst p = f"
      "IsEvictable (snd p)" by blast
    from replacer_ok_evictable_pin[OF rok p(1,3)] show ?thesis
      using p(2) len by (simp add: valid_frame_def page_at_def)
  qed
  show ?thesis using a b by blast
qed


subsection \<open>Runs of small pools\<close>

lemmas bpm_defs = new_BufferPoolManagerInstance_def NewPgImp_def FetchPgImp_def UnpinPgImp_def
  FlushPgImp_def FlushAllPgsImp_def DeletePgImp_def obtain_frame_def write_back_def unmap_page_def
  call_replacer_def valid_frame_def page_at_def set_page_def new_Page_def ResetMemory_def
  WritePage_def ReadPage_def INVALID_PAGE_ID_def

lemmas repl_defs = new_LRUKReplacer_def RecordAccess_def SetEvictable_def Remove_def Evict_def
  CheckFrameId_def map_count_def map_modify_def map_erase_def FrameInfo_RecordAccess_def
  new_FrameInfo_def IsEvictable_def FrameInfo_SetEvictable_def GetAccessInfo_def
  BUSTUB_TIMESTAMP_MAX_def

lemmas eht_defs = new_ExtendibleHashTable_def new_Bucket_def Insert_def InsertInternal.simps
  Find_def Remove_eht_def IndexOf_def Bucket_Find_def Bucket_Insert_def Bucket_Remove_def
  IsFull_def GetItems_def GetDepth_def split_bucket_def make_shared_def



lemma pool1_unpinned_run:
  "bpm_run unat [NewPage, UnpinPage 0 False] (new_BufferPoolManagerInstance 1 \<lparr>writes = []\<rparr> 2 2)
     = Some pool1_unpinned"
  by (simp add: pool1_unpinned_def bpm_defs repl_defs eht_defs Let_def)

lemma pool1_dirty_run:
  "bpm_run unat [NewPage, UnpinPage 0 True] (new_BufferPoolManagerInstance 1 \<lparr>writes = []\<rparr> 2 2)
     = Some pool1_dirty"
  by (simp add: pool1_dirty_def bpm_defs repl_defs eht_defs Let_def)

lemma pool1_dirty_NewPgImp: "NewPgImp unat pool1_dirty = Returns (Some (1, 0)) pool1_reused"
  by (simp add: pool1_dirty_def pool1_reused_def bpm_defs repl_defs eht_defs Let_def)

lemma bpm_run_append: "bpm_run h (xs @ ys) s = Option.bind (bpm_run h xs s) (bpm_run h ys)"
proof (induction xs arbitrary: s)
  case Nil
  then show ?case by simp
next
  case (Cons x xs)
  then show ?case by (cases "bpm_apply h x s") simp_all
qed

lemma pool1_reused_run:
  "bpm_run unat [NewPage, UnpinPage 0 True, NewPage] (new_BufferPoolManagerInstance 1 \<lparr>writes = []\<rparr> 2 2)
     = Some pool1_reused"
proof -
  have "bpm_run unat ([NewPage, UnpinPage 0 True] @ [NewPage])
          (new_BufferPoolManagerInstance 1 \<lparr>writes = []\<rparr> 2 2) = Some pool1_reused"
    unfolding bpm_run_append pool1_dirty_run by (simp add: pool1_dirty_NewPgImp)
  then show ?thesis by (simp only: append.simps)
qed





text \<open>
  Claim C2: after \<open>unpin_page(page_id, is_dirty)\<close> on a resident page the frame's dirty flag
  is the old flag OR \<open>is_dirty\<close>; unpinning with \<open>is_dirty = false\<close> never clears a flag that
  was set.

  The code does not do this: \<open>UnpinPgImp\<close> assigns \<open>is_dirty_ = is_dirty\<close>. In the pool below
  (one frame) page 1 is resident and pinned in frame 0 and the frame's dirty flag is set;
  \<open>UnpinPgImp(1, false)\<close> returns true and leaves the flag cleared. The flag is set in that
  state because \<open>NewPgImp\<close> reused the frame of the dirty page 0 without resetting it (the
  miss path of \<open>FetchPgImp\<close> reuses a frame in the same way).
\<close>

theorem UnpinPgImp_overwrites_dirty_flag:
  "bpm_run unat [NewPage, UnpinPage 0 True, NewPage] (new_BufferPoolManagerInstance 1 \<lparr>writes = []\<rparr> 2 2)
     = Some pool1_reused \<and>
   Find unat 1 (page_table pool1_reused) = Some 0 \<and>
   is_dirty (page_at pool1_reused 0) \<and>
   (case UnpinPgImp unat 1 False pool1_reused of
      Returns res s' \<Rightarrow> res \<and> \<not> is_dirty (page_at s' 0)
    | Throws s' \<Rightarrow> False
    | Aborts e \<Rightarrow> False)"
proof -
  have "Find unat 1 (page_table pool1_reused) = Some 0"
    by (simp add: pool1_reused_def eht_defs Let_def)
  moreover have "is_dirty (page_at pool1_reused 0)"
    by (simp add: pool1_reused_def page_at_def)
  moreover have "case UnpinPgImp unat 1 False pool1_reused of
      Returns res s' \<Rightarrow> res \<and> \<not> is_dirty (page_at s' 0)
    | Throws s' \<Rightarrow> False
    | Aborts e \<Rightarrow> False"
    by (simp add: pool1_reused_def bpm_defs repl_defs eht_defs Let_def)
  ultimately show ?thesis using pool1_reused_run by simp
qed

text \<open>
  Claim C3: on a hit \<open>fetch_page\<close> records an access, increments the frame's \<open>pin_count\<close>,
  marks the frame non-evictable and returns the frame.

  The code does only the first and the last. In the pool below page 0 is resident in
  frame 0, unpinned. \<open>FetchPgImp(0)\<close> returns frame 0 and records the access (history
  \<open>[0, 1]\<close>), but the pin count is still 0 and the frame is still evictable: \<open>Evict\<close> on the
  replacer of the state returned hands out frame 0.
\<close>

theorem FetchPgImp_hit_leaves_pin_count:
  "bpm_run unat [NewPage, UnpinPage 0 False] (new_BufferPoolManagerInstance 1 \<lparr>writes = []\<rparr> 2 2)
     = Some pool1_unpinned \<and>
   Find unat 0 (page_table pool1_unpinned) = Some 0 \<and>
   pin_count (page_at pool1_unpinned 0) = 0 \<and>
   (case FetchPgImp unat 0 pool1_unpinned of
      Returns res s' \<Rightarrow>
        res = Some 0 \<and> pin_count (page_at s' 0) = 0 \<and>
        map_of (frame_map (replacer s')) 0 = Some \<lparr>fi_k = 2, evictable = True, access_timestamps = [0, 1]\<rparr> \<and>
        (case Evict (replacer s') of Inr (victim, r') \<Rightarrow> victim = Some 0 | Inl e \<Rightarrow> False)
    | Throws s' \<Rightarrow> False
    | Aborts e \<Rightarrow> False)"
proof -
  have "Find unat 0 (page_table pool1_unpinned) = Some 0"
    by (simp add: pool1_unpinned_def eht_defs Let_def)
  moreover have "pin_count (page_at pool1_unpinned 0) = 0"
    by (simp add: pool1_unpinned_def page_at_def)
  moreover have "case FetchPgImp unat 0 pool1_unpinned of
      Returns res s' \<Rightarrow>
        res = Some 0 \<and> pin_count (page_at s' 0) = 0 \<and>
        map_of (frame_map (replacer s')) 0 = Some \<lparr>fi_k = 2, evictable = True, access_timestamps = [0, 1]\<rparr> \<and>
        (case Evict (replacer s') of Inr (victim, r') \<Rightarrow> victim = Some 0 | Inl e \<Rightarrow> False)
    | Throws s' \<Rightarrow> False
    | Aborts e \<Rightarrow> False"
    by (simp add: pool1_unpinned_def bpm_defs repl_defs eht_defs Let_def)
  ultimately show ?thesis using pool1_unpinned_run by simp
qed

text \<open>
  Claim C4: when \<open>new_page\<close> succeeds the frame returned has zeroed bytes, the freshly
  allocated page id, pin count 1 and dirty flag false, also when the frame was taken from
  a dirty page that was written back.

  The code does not clear the flag: \<open>NewPgImp\<close> never assigns \<open>is_dirty_\<close>. In the pool below
  (one frame) page 0 is resident, unpinned and dirty. \<open>NewPgImp\<close> evicts it, writes it to disk
  and returns frame 0 with page id 1, zeroed bytes, pin count 1, and the dirty flag
  still set.
\<close>

theorem NewPgImp_keeps_dirty_flag:
  "bpm_run unat [NewPage, UnpinPage 0 True] (new_BufferPoolManagerInstance 1 \<lparr>writes = []\<rparr> 2 2)
     = Some pool1_dirty \<and>
   NewPgImp unat pool1_dirty = Returns (Some (1, 0)) pool1_reused \<and>
   writes (disk_manager pool1_reused) = [(0, replicate BUSTUB_PAGE_SIZE 0)] \<and>
   page_at pool1_reused 0 =
     \<lparr>data = replicate BUSTUB_PAGE_SIZE 0, page_id = 1, pin_count = 1, is_dirty = True\<rparr>"
proof -
  have "writes (disk_manager pool1_reused) = [(0, replicate BUSTUB_PAGE_SIZE 0)]"
    by (simp add: pool1_reused_def)
  moreover have "page_at pool1_reused 0 =
     \<lparr>data = replicate BUSTUB_PAGE_SIZE 0, page_id = 1, pin_count = 1, is_dirty = True\<rparr>"
    by (simp add: pool1_reused_def page_at_def)
  ultimately show ?thesis using pool1_dirty_run pool1_dirty_NewPgImp by simp
qed

text \<open>
  An instance: after \<open>new_page\<close> and \<open>unpin_page(0, false)\<close> on a pool of one frame, frame 0 is
  evictable, \<open>Evict\<close> returns it, and its pin count is 0.
\<close>

theorem pin_safety_witness:
  "bpm_run unat [NewPage, UnpinPage 0 False] (new_BufferPoolManagerInstance 1 \<lparr>writes = []\<rparr> 2 2)
     = Some pool1_unpinned \<and>
   Evict (replacer pool1_unpinned) =
     Inr (Some 0, (replacer pool1_unpinned)\<lparr>frame_map := [], curr_size := 0\<rparr>) \<and>
   map_of (frame_map (replacer pool1_unpinned)) 0 =
     Some \<lparr>fi_k = 2, evictable = True, access_timestamps = [0]\<rparr> \<and>
   valid_frame pool1_unpinned 0 \<and> \<not> pin_count (page_at pool1_unpinned 0) > 0"
proof -
  have e: "Evict (replacer pool1_unpinned) =
     Inr (Some 0, (replacer pool1_unpinned)\<lparr>frame_map := [], curr_size := 0\<rparr>)"
    by (simp add: pool1_unpinned_def repl_defs Let_def)
  have m: "map_of (frame_map (replacer pool1_unpinned)) 0 =
     Some \<lparr>fi_k = 2, evictable = True, access_timestamps = [0]\<rparr>"
    by (simp add: pool1_unpinned_def)
  from pin_safety[OF pool1_unpinned_run] e
  have "valid_frame pool1_unpinned 0 \<and> \<not> pin_count (page_at pool1_unpinned 0) > 0" by blast
  then show ?thesis using pool1_unpinned_run e m by simp
qed


end
